theory Spec2Isabelle
  imports Main "HOL-Library.Word" "HOL-Library.Multiset" "HOL-Library.Sublist"
begin

section \<open>Python values and built-ins used by otf2clm.py\<close>

text \<open>
  The script is a Python 3 program: its first line is \<^verbatim>\<open>#!/usr/bin/python3\<close> and it
  builds byte strings with \<^verbatim>\<open>bytes('c', 'ascii')\<close>, which Python 2 rejects. Integers
  are unbounded (\<open>int\<close>), exceptions are values of \<open>error\<close>, and the output file is the
  list of bytes written to it.
\<close>

datatype error =
  StructError | KeyError | IndexError | ValueError | TypeError | ZeroDivisionError
  | UnicodeEncodeError

type_synonym byte = "8 word"

text \<open>
  What a piece of code has appended to the output file \<open>f\<close>, and the exception that
  stopped it (if any). Bytes written before an exception stay written.
\<close>

type_synonym written = "byte list \<times> error option"

subsection \<open>struct.pack\<close>

text \<open>
  Network byte order (\<^verbatim>\<open>!\<close>), two's complement. \<^verbatim>\<open>struct.pack\<close> raises
  \<^verbatim>\<open>struct.error\<close> when a value does not fit its format, and then nothing is written.
\<close>

definition u16 :: "int \<Rightarrow> byte list" where
  "u16 x = [word_of_int (x div 256), word_of_int x]"

definition u32 :: "int \<Rightarrow> byte list" where
  "u32 x = [word_of_int (x div 16777216), word_of_int (x div 65536),
            word_of_int (x div 256), word_of_int x]"

definition fits_H :: "int \<Rightarrow> bool" where
  "fits_H x = (0 \<le> x \<and> x \<le> 65535)"

definition fits_h :: "int \<Rightarrow> bool" where
  "fits_h x = (- 32768 \<le> x \<and> x \<le> 32767)"

definition fits_I :: "int \<Rightarrow> bool" where
  "fits_I x = (0 \<le> x \<and> x \<le> 4294967295)"

definition fits_i :: "int \<Rightarrow> bool" where
  "fits_i x = (- 2147483648 \<le> x \<and> x \<le> 2147483647)"

definition pack_H :: "int \<Rightarrow> error + byte list" where
  "pack_H x = (if fits_H x then Inr (u16 x) else Inl StructError)"

definition pack_h :: "int \<Rightarrow> error + byte list" where
  "pack_h x = (if fits_h x then Inr (u16 x) else Inl StructError)"

definition pack_i :: "int \<Rightarrow> error + byte list" where
  "pack_i x = (if fits_i x then Inr (u32 x) else Inl StructError)"

definition pack_B :: "int \<Rightarrow> error + byte list" where
  "pack_B x = (if 0 \<le> x \<and> x \<le> 255 then Inr [word_of_int x] else Inl StructError)"

definition pack_bool :: "bool \<Rightarrow> error + byte list" where
  "pack_bool b = Inr [if b then 1 else 0]"

definition pack_IH :: "int \<Rightarrow> int \<Rightarrow> error + byte list" where
  "pack_IH a b = (if fits_I a \<and> fits_H b then Inr (u32 a @ u16 b) else Inl StructError)"

definition pack_Hh :: "int \<Rightarrow> int \<Rightarrow> error + byte list" where
  "pack_Hh a b = (if fits_H a \<and> fits_h b then Inr (u16 a @ u16 b) else Inl StructError)"

definition pack_HH :: "int \<Rightarrow> int \<Rightarrow> error + byte list" where
  "pack_HH a b = (if fits_H a \<and> fits_H b then Inr (u16 a @ u16 b) else Inl StructError)"

definition pack_hh :: "int \<Rightarrow> int \<Rightarrow> error + byte list" where
  "pack_hh a b = (if fits_h a \<and> fits_h b then Inr (u16 a @ u16 b) else Inl StructError)"

text \<open>\<^verbatim>\<open>struct.pack('c', bytes(x, 'ascii'))\<close> for a one-character string \<open>x\<close>.\<close>

definition pack_c :: "char \<Rightarrow> error + byte list" where
  "pack_c x = (if (of_char x :: nat) < 128 then Inr [of_nat (of_char x)]
               else Inl UnicodeEncodeError)"

subsection \<open>Writing to the file\<close>

definition f_write :: "error + byte list \<Rightarrow> written" where
  "f_write p = (case p of Inl e \<Rightarrow> ([], Some e) | Inr bs \<Rightarrow> (bs, None))"

text \<open>Two statements in sequence: the second runs only when the first raised nothing.\<close>

definition andthen :: "written \<Rightarrow> written \<Rightarrow> written" where
  "andthen a b = (case snd a of Some e \<Rightarrow> a | None \<Rightarrow> (fst a @ fst b, snd b))"

definition write_all :: "written list \<Rightarrow> written" where
  "write_all ws = foldr andthen ws ([], None)"

text \<open>\<^verbatim>\<open>for x in xs: w(x)\<close>\<close>

definition write_each :: "('a \<Rightarrow> written) \<Rightarrow> 'a list \<Rightarrow> written" where
  "write_each w xs = write_all (map w xs)"

subsection \<open>Sequences and one-shot iterators\<close>

text \<open>
  A Python 3 iterable is either a sequence (a list or tuple: it can be iterated again and
  has a length) or an iterator (what \<^verbatim>\<open>map\<close>, \<^verbatim>\<open>filter\<close> and \<^verbatim>\<open>enumerate\<close> return:
  iterating it uses it up, it has no \<^verbatim>\<open>len\<close>, and it is always true in a condition).
  \<open>Iter xs\<close> is an iterator that still has the items \<open>xs\<close> to give.
\<close>

datatype 'a iterable = Seq "'a list" | Iter "'a list"

fun iter_items :: "'a iterable \<Rightarrow> 'a list" where
  "iter_items (Seq xs) = xs"
| "iter_items (Iter xs) = xs"

fun exhaust :: "'a iterable \<Rightarrow> 'a iterable" where
  "exhaust (Seq xs) = Seq xs"
| "exhaust (Iter xs) = Iter []"

fun truthy :: "'a iterable \<Rightarrow> bool" where
  "truthy (Seq xs) = (xs \<noteq> [])"
| "truthy (Iter xs) = True"

fun py_len :: "'a iterable \<Rightarrow> error + nat" where
  "py_len (Seq xs) = Inr (length xs)"
| "py_len (Iter xs) = Inl TypeError"

text \<open>\<^verbatim>\<open>list(it)\<close>: the items, and the iterable as it is left behind.\<close>

definition py_list :: "'a iterable \<Rightarrow> 'a list \<times> 'a iterable" where
  "py_list it = (iter_items it, exhaust it)"

text \<open>
  \<^verbatim>\<open>map\<close> and \<^verbatim>\<open>filter\<close> give an iterator over what their argument still has to
  give. (The object reads its argument only as it is consumed; in this script nothing
  touches the argument in between.) \<^verbatim>\<open>enumerate\<close> is only applied to tuples.
\<close>

definition py_map :: "('a \<Rightarrow> 'b) \<Rightarrow> 'a iterable \<Rightarrow> 'b iterable" where
  "py_map g it = Iter (map g (iter_items it))"

definition py_filter :: "('a \<Rightarrow> bool) \<Rightarrow> 'a iterable \<Rightarrow> 'a iterable" where
  "py_filter p it = Iter (filter p (iter_items it))"

definition py_enumerate :: "'a list \<Rightarrow> (nat \<times> 'a) iterable" where
  "py_enumerate xs = Iter (enumerate 0 xs)"

text \<open>\<^verbatim>\<open>xs[i]\<close> for a constant index \<open>i \<ge> 0\<close>.\<close>

definition py_index :: "'a list \<Rightarrow> nat \<Rightarrow> error + 'a" where
  "py_index xs i = (if i < length xs then Inr (xs ! i) else Inl IndexError)"

subsection \<open>The script's own helpers\<close>

text \<open>
  \<^verbatim>\<open>chain(f, g, ...)\<close> is the composition "first \<open>f\<close>, then \<open>g\<close>, ...", \<^verbatim>\<open>do(f, x)\<close> and
  \<^verbatim>\<open>do_loop(f, xs)\<close> call \<open>f\<close> for its effect; they are written out where they are used.
\<close>

text \<open>\<^verbatim>\<open>fmap(f, it) = [j for i in it for j in f(i)]\<close>: a list, built at once.\<close>

definition fmap :: "('a \<Rightarrow> 'b list) \<Rightarrow> 'a iterable \<Rightarrow> 'b list" where
  "fmap g it = concat (map g (iter_items it))"

fun find_first :: "'a list \<Rightarrow> ('a \<Rightarrow> bool) \<Rightarrow> 'a option" where
  "find_first [] predicate = None"
| "find_first (x # xs) predicate = (if predicate x then Some x else find_first xs predicate)"

section \<open>The command line (main)\<close>

text \<open>
  \<^verbatim>\<open>sys.argv\<close> holds the script name first and the arguments after it: main passes
  \<^verbatim>\<open>sys.argv[1]\<close> to \<^verbatim>\<open>sys.argv[4]\<close> to parse_otf. What main does is to print the usage
  text and return, to raise, or to call parse_otf.
\<close>

datatype outcome =
  PrintUsage
  | Raise error
  | Call_parse_otf string bool bool string

definition main :: "string list \<Rightarrow> outcome" where
  "main argv =
    (if length argv < 4 then PrintUsage
     else (case py_index argv 1 of Inl e \<Rightarrow> Raise e | Inr a1 \<Rightarrow>
          (case py_index argv 2 of Inl e \<Rightarrow> Raise e | Inr a2 \<Rightarrow>
          (case py_index argv 3 of Inl e \<Rightarrow> Raise e | Inr a3 \<Rightarrow>
          (case py_index argv 4 of Inl e \<Rightarrow> Raise e | Inr a4 \<Rightarrow>
            Call_parse_otf a1 (a2 = ''true'') (a3 = ''true'') a4)))))"

section \<open>Glyph outline paths (read_glyph_path)\<close>

text \<open>
  A path command is the Python list \<^verbatim>\<open>[x, a1, ..., an]\<close>: the opcode character \<open>x\<close>
  (\<^verbatim>\<open>t[0]\<close>) and its integer operands (\<^verbatim>\<open>t[k]\<close> is the \<open>k\<close>-th operand, counted
  from 1). A string is the list of its characters; characters are code points below 256.
\<close>

type_synonym cmd = "char \<times> int list"

definition path_cmd_arg_cnt :: "char \<Rightarrow> int" where
  "path_cmd_arg_cnt x =
    (if x = CHR ''M'' \<or> x = CHR ''m'' \<or> x = CHR ''L'' \<or> x = CHR ''l''
        \<or> x = CHR ''T'' \<or> x = CHR ''t'' then 2
     else if x = CHR ''H'' \<or> x = CHR ''h'' \<or> x = CHR ''V'' \<or> x = CHR ''v'' then 1
     else if x = CHR ''C'' \<or> x = CHR ''c'' then 6
     else if x = CHR ''S'' \<or> x = CHR ''s'' \<or> x = CHR ''Q'' \<or> x = CHR ''q'' then 4
     else if x = CHR ''Z'' \<or> x = CHR ''z'' then - 1
     else 0)"

text \<open>
  \<^verbatim>\<open>str.isdigit\<close> holds of the ASCII digits and, below 256, of the superscripts two, three
  and one (code points 178, 179, 185). \<^verbatim>\<open>int(s)\<close> of a token made of digits, \<^verbatim>\<open>.\<close> and
  \<^verbatim>\<open>-\<close> wants an optional minus sign and then ASCII digits, at least one; everything else
  is a ValueError. (The limit recent Python versions put on the number of digits is left
  out.)
\<close>

definition ascii_digit :: "char \<Rightarrow> bool" where
  "ascii_digit c = (48 \<le> (of_char c :: nat) \<and> (of_char c :: nat) \<le> 57)"

definition isdigit :: "char \<Rightarrow> bool" where
  "isdigit c = (ascii_digit c \<or> (of_char c :: nat) = 178 \<or> (of_char c :: nat) = 179
                \<or> (of_char c :: nat) = 185)"

definition is_valid_digit :: "char \<Rightarrow> bool" where
  "is_valid_digit c = (c = CHR ''.'' \<or> c = CHR ''-'' \<or> isdigit c)"

definition decimal :: "string \<Rightarrow> int" where
  "decimal ds = foldl (\<lambda>a c. 10 * a + (int (of_char c) - 48)) 0 ds"

definition py_int :: "string \<Rightarrow> error + int" where
  "py_int s =
    (case s of
       [] \<Rightarrow> Inl ValueError
     | c # ds \<Rightarrow>
         if c = CHR ''-'' then
           (if ds \<noteq> [] \<and> list_all ascii_digit ds then Inr (- decimal ds) else Inl ValueError)
         else if list_all ascii_digit s then Inr (decimal s) else Inl ValueError)"

text \<open>
  The loops of the parser, each with the index it advances: \<open>digits_end\<close> is the loop of
  the local function \<^verbatim>\<open>digits\<close>, \<open>skip_to_digit\<close> the loop
  \<^verbatim>\<open>while not is_valid_digit(v[i])\<close>, \<open>read_args\<close> the loop over \<^verbatim>\<open>range(0, cnt)\<close>
  (no round for the count -1 of the close command) and \<open>parse_path\<close> the outer loop.
  Reading \<^verbatim>\<open>v[i]\<close> at the end of the string raises IndexError.
\<close>

function digits_end :: "string \<Rightarrow> nat \<Rightarrow> error + nat" where
  "digits_end v j =
    (if j < length v then (if is_valid_digit (v ! j) then digits_end v (j + 1) else Inr j)
     else Inl IndexError)"
  by pat_completeness auto
termination
  by (relation "measure (\<lambda>(v, j). length v - j)") auto

declare digits_end.simps [simp del]

definition digits :: "string \<Rightarrow> nat \<Rightarrow> error + (string \<times> nat)" where
  "digits v i = (case digits_end v i of Inl e \<Rightarrow> Inl e
                 | Inr j \<Rightarrow> Inr (take (j - i) (drop i v), j))"

function skip_to_digit :: "string \<Rightarrow> nat \<Rightarrow> error + nat" where
  "skip_to_digit v i =
    (if i < length v then (if \<not> is_valid_digit (v ! i) then skip_to_digit v (i + 1) else Inr i)
     else Inl IndexError)"
  by pat_completeness auto
termination
  by (relation "measure (\<lambda>(v, i). length v - i)") auto

declare skip_to_digit.simps [simp del]

fun read_args :: "string \<Rightarrow> nat \<Rightarrow> nat \<Rightarrow> int list \<Rightarrow> error + (int list \<times> nat)" where
  "read_args v 0 i cmd = Inr (cmd, i)"
| "read_args v (Suc n) i cmd =
    (case skip_to_digit v i of Inl e \<Rightarrow> Inl e | Inr i1 \<Rightarrow>
    (case digits v i1 of Inl e \<Rightarrow> Inl e | Inr (r0, r1) \<Rightarrow>
    (case py_int r0 of Inl e \<Rightarrow> Inl e | Inr a \<Rightarrow> read_args v n r1 (cmd @ [a]))))"

function parse_path :: "string \<Rightarrow> nat \<Rightarrow> cmd list \<Rightarrow> error + cmd list" where
  "parse_path v i data =
    (if i < length v then
       (if path_cmd_arg_cnt (v ! i) = 0 then parse_path v (i + 1) data
        else (case read_args v (nat (path_cmd_arg_cnt (v ! i))) (i + 1) [] of
                Inl e \<Rightarrow> Inl e
              | Inr (args, i') \<Rightarrow> parse_path v i' (data @ [(v ! i, args)])))
     else Inr data)"
  by pat_completeness auto
termination
proof (relation "measure (\<lambda>(v, i, data). length v - i)")
  show "wf (measure (\<lambda>(v, i, data). length v - i))" by simp
next
  fix v :: string and i :: nat and data :: "cmd list"
  assume "i < length v"
  then show "((v, i + 1, data), (v, i, data)) \<in> measure (\<lambda>(v, i, data). length v - i)"
    by simp
next
  fix v :: string and i :: nat and data :: "cmd list" and x2 :: "int list \<times> nat" and args i'
  assume lt: "i < length v"
    and r: "read_args v (nat (path_cmd_arg_cnt (v ! i))) (i + 1) [] = Inr x2"
    and x2: "(args, i') = x2"
  have skip: "\<And>k j. skip_to_digit v k = Inr j \<Longrightarrow> k \<le> j"
  proof -
    fix k j show "skip_to_digit v k = Inr j \<Longrightarrow> k \<le> j"
      by (induction v k rule: skip_to_digit.induct)
         (subst (asm) skip_to_digit.simps, auto split: if_splits)
  qed
  have dig: "\<And>k j. digits_end v k = Inr j \<Longrightarrow> k \<le> j"
  proof -
    fix k j show "digits_end v k = Inr j \<Longrightarrow> k \<le> j"
      by (induction v k rule: digits_end.induct)
         (subst (asm) digits_end.simps, auto split: if_splits)
  qed
  have args: "\<And>n k acc as j. read_args v n k acc = Inr (as, j) \<Longrightarrow> k \<le> j"
  proof -
    fix n k acc as j show "read_args v n k acc = Inr (as, j) \<Longrightarrow> k \<le> j"
    proof (induction n arbitrary: k acc)
      case 0
      then show ?case by simp
    next
      case (Suc n)
      from Suc.prems obtain i1 r1 a where
        s: "skip_to_digit v k = Inr i1" and d: "digits_end v i1 = Inr r1"
        and rest: "read_args v n r1 (acc @ [a]) = Inr (as, j)"
        by (auto simp: digits_def split: sum.splits)
      from skip [OF s] dig [OF d] Suc.IH [OF rest] show ?case by simp
    qed
  qed
  from r x2 have "i + 1 \<le> i'" using args by metis
  with lt show "((v, i', data @ [(v ! i, args)]), (v, i, data)) \<in> measure (\<lambda>(v, i, data). length v - i)"
    by simp
qed

declare parse_path.simps [simp del]

text \<open>
  \<^verbatim>\<open>t[k] = -t[k]\<close> on a command: IndexError when it has fewer than \<open>k\<close> operands.
\<close>

definition bind_err :: "error + 'a \<Rightarrow> ('a \<Rightarrow> error + 'b) \<Rightarrow> error + 'b" where
  "bind_err r g = (case r of Inl e \<Rightarrow> Inl e | Inr x \<Rightarrow> g x)"

definition neg_operand :: "nat \<Rightarrow> cmd \<Rightarrow> error + cmd" where
  "neg_operand k t =
    (if 1 \<le> k \<and> k \<le> length (snd t)
     then Inr (fst t, (snd t)[k - 1 := - (snd t ! (k - 1))])
     else Inl IndexError)"

definition mirror_cmd :: "cmd \<Rightarrow> error + cmd" where
  "mirror_cmd t =
    (let x = fst t in
     if x = CHR ''M'' \<or> x = CHR ''m'' \<or> x = CHR ''L'' \<or> x = CHR ''l''
        \<or> x = CHR ''T'' \<or> x = CHR ''t'' then neg_operand 2 t
     else if x = CHR ''V'' \<or> x = CHR ''v'' then neg_operand 1 t
     else if x = CHR ''C'' \<or> x = CHR ''c'' then
       bind_err (neg_operand 2 t) (\<lambda>t. bind_err (neg_operand 4 t) (neg_operand 6))
     else if x = CHR ''S'' \<or> x = CHR ''s'' \<or> x = CHR ''Q'' \<or> x = CHR ''q'' then
       bind_err (neg_operand 2 t) (neg_operand 4)
     else Inr t)"

fun mirror :: "cmd list \<Rightarrow> error + cmd list" where
  "mirror [] = Inr []"
| "mirror (t # data) =
    (case mirror_cmd t of Inl e \<Rightarrow> Inl e
     | Inr t' \<Rightarrow> (case mirror data of Inl e \<Rightarrow> Inl e | Inr data' \<Rightarrow> Inr (t' # data')))"

text \<open>
  The export of the glyph to SVG and the reading of the XML are fontforge's and minidom's:
  read_glyph_path is given the \<^verbatim>\<open>d\<close> attribute of the first path element, or \<open>None\<close> when
  the glyph has no path.
\<close>

definition read_glyph_path :: "string option \<Rightarrow> error + cmd list" where
  "read_glyph_path path =
    (case path of None \<Rightarrow> Inr []
     | Some v \<Rightarrow> bind_err (parse_path v 0 []) mirror)"

section \<open>The unicode map (write_clm_unicode_glyph_map)\<close>

definition write_clm_unicode_glyph_map :: "(int \<times> int) list \<Rightarrow> written" where
  "write_clm_unicode_glyph_map unicode_glyph_map =
    andthen (f_write (pack_H (int (length unicode_glyph_map))))
      (write_each (\<lambda>(codepoint, glyph_id). f_write (pack_IH codepoint glyph_id))
         (sort_key fst unicode_glyph_map))"

section \<open>Kerning classes (write_clm_kerning_class)\<close>

text \<open>
  A kerning class table is the triple fontforge's getKerningClass gives: the classes of
  the left glyphs, those of the right glyphs (a class is a tuple of glyph names, and \<open>None\<close>
  for the first class), and the values, row by row.
\<close>

type_synonym bucket = "string list option"
type_synonym kerning_class = "bucket list \<times> bucket list \<times> int list"

text \<open>Computations run in order, up to the first exception.\<close>

fun collect :: "(error + 'a) list \<Rightarrow> error + 'a list" where
  "collect [] = Inr []"
| "collect (r # rs) =
    (case r of Inl e \<Rightarrow> Inl e
     | Inr x \<Rightarrow> (case collect rs of Inl e \<Rightarrow> Inl e | Inr xs \<Rightarrow> Inr (x # xs)))"

definition lookup_name :: "(string \<rightharpoonup> int) \<Rightarrow> string \<Rightarrow> error + int" where
  "lookup_name glyph_name_id_map n =
    (case glyph_name_id_map n of None \<Rightarrow> Inl KeyError | Some g \<Rightarrow> Inr g)"

text \<open>
  write_classes is the chain of eight stages. Stage 1 is a \<^verbatim>\<open>map\<close> (of \<^verbatim>\<open>map\<close>s, each made
  when stage 1 is consumed; over \<open>None\<close> that is a TypeError), so \<^verbatim>\<open>len(xs)\<close> in stage 2
  raises TypeError. The later stages are as they would run after it.
\<close>

definition write_classes :: "(string \<rightharpoonup> int) \<Rightarrow> (nat \<times> bucket) iterable \<Rightarrow> written" where
  "write_classes glyph_name_id_map ys =
    (let s1 = py_map (\<lambda>y. case snd y of None \<Rightarrow> Inl TypeError
                          | Some names \<Rightarrow> Inr (py_map (\<lambda>x. (x, fst y)) (Seq names))) ys
     in case py_len s1 of
          Inl e \<Rightarrow> ([], Some e)
        | Inr n \<Rightarrow>
            andthen (f_write (pack_H (int n)))
              (case collect (iter_items s1) of
                 Inl e \<Rightarrow> ([], Some e)
               | Inr s2 \<Rightarrow>
                  (case collect (map (\<lambda>n. case lookup_name glyph_name_id_map (fst n) of
                                           Inl e \<Rightarrow> Inl e | Inr g \<Rightarrow> Inr (g, snd n))
                                  (fmap iter_items (Seq s2))) of
                     Inl e \<Rightarrow> ([], Some e)
                   | Inr s4 \<Rightarrow>
                      (let xs = sort_key fst s4 in
                       andthen (f_write (pack_H (int (length xs))))
                         (write_each (\<lambda>n. f_write (pack_HH (fst n) (int (snd n)))) xs)))))"

text \<open>
  The loop over \<^verbatim>\<open>enumerate(value)\<close>. \<^verbatim>\<open>i % column_count\<close> is evaluated only when
  \<^verbatim>\<open>i < column_count\<close> is false, and raises ZeroDivisionError when \<open>right\<close> is empty.
\<close>

definition write_values :: "nat \<Rightarrow> int list \<Rightarrow> written" where
  "write_values column_count val =
    write_each (\<lambda>(i, v).
        if i < column_count then ([], None)
        else if column_count = 0 then ([], Some ZeroDivisionError)
        else if i mod column_count = 0 then ([], None)
        else f_write (pack_h v))
      (enumerate 0 val)"

definition write_clm_kerning_class ::
  "kerning_class iterable \<Rightarrow> (string \<rightharpoonup> int) \<Rightarrow> written" where
  "write_clm_kerning_class kerning_classes glyph_name_id_map =
    (let (l, kerning_classes') = py_list kerning_classes in
     andthen (f_write (pack_H (int (length l))))
       (write_each (\<lambda>(left, right, val).
            andthen (write_classes glyph_name_id_map (py_enumerate (drop 1 left)))
           (andthen (write_classes glyph_name_id_map (py_enumerate (drop 1 right)))
                    (write_values (length right) val)))
          (iter_items kerning_classes')))"

section \<open>Per-glyph kerning (read_kern, write_kerns)\<close>

text \<open>
  The tuple fontforge's getPosSub gives for an entry of a pair positioning subtable:
  \<^verbatim>\<open>kern_info[2]\<close> is the other glyph's name, \<^verbatim>\<open>kern_info[5]\<close> the change of the first
  glyph's horizontal advance.
\<close>

record kern_info =
  subtable_name :: string
  kind :: string
  other_glyph :: string
  dx1 :: int
  dy1 :: int
  dx_adv1 :: int
  dy_adv1 :: int
  dx2 :: int
  dy2 :: int
  dx_adv2 :: int
  dy_adv2 :: int

text \<open>
  read_kern returns a \<^verbatim>\<open>map\<close> object over a \<^verbatim>\<open>filter\<close> object over the list fmap has
  built; fmap uses kern_subtable_names up (the second component is how it is left).
\<close>

definition read_kern ::
  "(string \<Rightarrow> kern_info list) \<Rightarrow> string iterable \<Rightarrow> (string \<times> int) iterable \<times> string iterable" where
  "read_kern getPosSub kern_subtable_names =
    (py_map (\<lambda>kern_info. (other_glyph kern_info, dx_adv1 kern_info))
       (py_filter (\<lambda>kern_info. dx_adv1 kern_info \<noteq> 0)
          (Seq (fmap getPosSub kern_subtable_names))),
     exhaust kern_subtable_names)"

text \<open>
  \<open>kerns\<close> is read three times: as a condition, by \<^verbatim>\<open>list(kerns)\<close>, and by
  \<^verbatim>\<open>map\<close> and \<^verbatim>\<open>sorted\<close>, which resolve every name (KeyError) before a pair is written.
\<close>

definition write_kerns :: "(string \<rightharpoonup> int) \<Rightarrow> (string \<times> int) iterable \<Rightarrow> written" where
  "write_kerns glyph_name_id_map kerns =
    (if \<not> truthy kerns then f_write (pack_H 0)
     else
       (let (l, kerns') = py_list kerns in
        andthen (f_write (pack_H (int (length l))))
          (case collect (map (\<lambda>x. case lookup_name glyph_name_id_map (fst x) of
                                   Inl e \<Rightarrow> Inl e | Inr g \<Rightarrow> Inr (g, snd x))
                          (iter_items kerns')) of
             Inl e \<Rightarrow> ([], Some e)
           | Inr resolved \<Rightarrow>
               write_each (\<lambda>(glyph, val). f_write (pack_Hh glyph val))
                 (sort_key fst resolved))))"

section \<open>Ligatures (write_ligas)\<close>

text \<open>
  A trie node is the dict with the keys glyph, char, liga and children. The script
  changes the dicts in place; no node is shared, so the model rebuilds the tree.
  \<open>insert_path\<close> is the loop of add_node: among the children find the first with the
  glyph, or append a new node with liga -1; go on below it; at the last glyph set liga.
  The names are resolved by a lazy \<^verbatim>\<open>map\<close> while the loop runs: a KeyError ends
  write_ligas before anything is written, so \<open>add_node\<close> resolves first. For a rule
  without glyphs, \<open>child\<close> is still \<open>None\<close> at \<^verbatim>\<open>child['liga'] = liga\<close>: TypeError.
  The root's char is the number 0 in the script and the empty name here; it is never read.
\<close>

datatype node = Node (node_glyph: int) (node_char: string) (node_liga: int) (node_children: "node list")

fun update_first :: "('a \<Rightarrow> bool) \<Rightarrow> ('a \<Rightarrow> 'a) \<Rightarrow> 'a list \<Rightarrow> 'a list" where
  "update_first p g [] = []"
| "update_first p g (x # xs) = (if p x then g x # xs else x # update_first p g xs)"

fun insert_path :: "(int \<times> string) list \<Rightarrow> int \<Rightarrow> node list \<Rightarrow> node list" where
  "insert_path [] liga children = children"
| "insert_path ((glyph, char) # glyphs) liga children =
    (let below = (\<lambda>child.
           if glyphs = [] then Node (node_glyph child) (node_char child) liga (node_children child)
           else Node (node_glyph child) (node_char child) (node_liga child)
                  (insert_path glyphs liga (node_children child)))
     in case find_first children (\<lambda>x. node_glyph x = glyph) of
          None \<Rightarrow> children @ [below (Node glyph char (- 1) [])]
        | Some child \<Rightarrow> update_first (\<lambda>x. node_glyph x = glyph) below children)"

definition add_node :: "(string \<rightharpoonup> int) \<Rightarrow> string list \<Rightarrow> int \<Rightarrow> node list \<Rightarrow> error + node list" where
  "add_node glyph_name_id_map chars liga forest =
    (case collect (map (\<lambda>char. case lookup_name glyph_name_id_map char of
                             Inl e \<Rightarrow> Inl e | Inr g \<Rightarrow> Inr (g, char)) chars) of
       Inl e \<Rightarrow> Inl e
     | Inr glyphs \<Rightarrow> if glyphs = [] then Inl TypeError else Inr (insert_path glyphs liga forest))"

fun add_nodes :: "(string \<rightharpoonup> int) \<Rightarrow> (string list \<times> int) list \<Rightarrow> node list \<Rightarrow> error + node list" where
  "add_nodes glyph_name_id_map [] forest = Inr forest"
| "add_nodes glyph_name_id_map ((chars, liga) # ligas) forest =
    (case add_node glyph_name_id_map chars liga forest of
       Inl e \<Rightarrow> Inl e
     | Inr forest' \<Rightarrow> add_nodes glyph_name_id_map ligas forest')"

fun sort_node :: "node \<Rightarrow> node" where
  "sort_node (Node glyph char liga children) =
     Node glyph char liga (sort_key node_glyph (map sort_node children))"

definition sort_children :: "node list \<Rightarrow> node list" where
  "sort_children children = sort_key node_glyph (map sort_node children)"

fun write_node :: "node \<Rightarrow> written" where
  "write_node (Node glyph char liga children) =
     andthen (f_write (pack_H glyph))
    (andthen (f_write (pack_i liga))
    (andthen (f_write (pack_H (int (length children))))
             (write_all (map write_node children))))"

definition write_ligas :: "(string list \<times> int) list \<Rightarrow> (string \<rightharpoonup> int) \<Rightarrow> written" where
  "write_ligas ligas glyph_name_id_map =
    (case add_nodes glyph_name_id_map ligas [] of
       Inl e \<Rightarrow> ([], Some e)
     | Inr forest \<Rightarrow> write_node (Node 0 [] (- 1) (sort_children forest)))"

section \<open>Math constants and glyphs (write_math_consts, write_glyphs)\<close>

definition write_math_consts :: "int list \<Rightarrow> written" where
  "write_math_consts consts = write_each (\<lambda>v. f_write (pack_h v)) consts"

text \<open>
  A glyph as read_glyph returns it. \<open>metrics\<close> holds \<^verbatim>\<open>int(v)\<close> for width, height and
  depth; \<open>math_record\<close> and \<open>path_cmds\<close> are \<open>None\<close> when the font was read without the
  math flag, or without the path flag. An assembly is the italics correction and the parts
  (\<open>None\<close> when there are none), a part the glyph name and its four numbers.
\<close>

type_synonym assembly = "int \<times> (string \<times> int list) list option"

record math =
  italic_correction :: int
  topaccent :: int
  horizontal_variants :: "string list"
  vertical_variants :: "string list"
  scripts :: "string list"
  horizontal_assembly :: assembly
  vertical_assembly :: assembly
  math_kern :: "(int \<times> int) list option list"

record glyph =
  metrics :: "int list"
  kerning :: "(string \<times> int) iterable"
  math_record :: "math option"
  path_cmds :: "cmd list option"
  glyph_name :: string

definition write_metrics :: "int list \<Rightarrow> written" where
  "write_metrics ms = write_each (\<lambda>v. f_write (pack_h v)) ms"

definition write_variants :: "(string \<rightharpoonup> int) \<Rightarrow> string list \<Rightarrow> written" where
  "write_variants glyph_name_id_map variants =
    (let len = (if variants = [] then 0 else length variants) in
     andthen (f_write (pack_H (int len)))
       (if len = 0 then ([], None)
        else write_each (\<lambda>v. case lookup_name glyph_name_id_map v of
                               Inl e \<Rightarrow> ([], Some e)
                             | Inr gid \<Rightarrow> f_write (pack_H gid)) variants))"

definition write_glyph_assembly :: "(string \<rightharpoonup> int) \<Rightarrow> assembly \<Rightarrow> written" where
  "write_glyph_assembly glyph_name_id_map assembly =
    (case snd assembly of
       None \<Rightarrow> f_write (pack_bool False)
     | Some parts \<Rightarrow>
         if parts = [] then f_write (pack_bool False)
         else
           andthen (f_write (pack_bool True))
          (andthen (f_write (pack_H (int (length parts))))
          (andthen (f_write (pack_h (fst assembly)))
                   (write_each (\<lambda>part.
                        andthen (case lookup_name glyph_name_id_map (fst part) of
                                   Inl e \<Rightarrow> ([], Some e)
                                 | Inr gid \<Rightarrow> f_write (pack_H gid))
                                (write_each (\<lambda>v. f_write (pack_H v)) (snd part)))
                      parts))))"

definition write_math_kern :: "(int \<times> int) list option list \<Rightarrow> written" where
  "write_math_kern math_kerns =
    write_each (\<lambda>i. case i of
          None \<Rightarrow> f_write (pack_H 0)
        | Some pairs \<Rightarrow>
            if pairs = [] then f_write (pack_H 0)
            else andthen (f_write (pack_H (int (length pairs))))
                   (write_each (\<lambda>(correction_height, val). f_write (pack_hh correction_height val))
                      pairs))
      math_kerns"

definition write_math :: "(string \<rightharpoonup> int) \<Rightarrow> math option \<Rightarrow> written" where
  "write_math glyph_name_id_map m =
    (case m of
       None \<Rightarrow> ([], Some TypeError)
     | Some math \<Rightarrow>
         andthen (f_write (pack_h (italic_correction math)))
        (andthen (f_write (pack_h (topaccent math)))
        (andthen (write_variants glyph_name_id_map (horizontal_variants math))
        (andthen (write_variants glyph_name_id_map (vertical_variants math))
        (andthen (write_variants glyph_name_id_map (scripts math))
        (andthen (write_glyph_assembly glyph_name_id_map (horizontal_assembly math))
        (andthen (write_glyph_assembly glyph_name_id_map (vertical_assembly math))
                 (write_math_kern (math_kern math)))))))))"

definition write_path :: "cmd list option \<Rightarrow> written" where
  "write_path p =
    (case p of
       None \<Rightarrow> ([], Some TypeError)
     | Some path \<Rightarrow>
         andthen (f_write (pack_H (int (length path))))
           (if path = [] then ([], None)
            else write_each (\<lambda>cmd.
                   andthen (f_write (pack_c (fst cmd)))
                           (write_each (\<lambda>param. f_write (pack_h param)) (snd cmd)))
                 path))"

definition write_glyphs ::
  "glyph list \<Rightarrow> (string \<rightharpoonup> int) \<Rightarrow> bool \<Rightarrow> bool \<Rightarrow> written" where
  "write_glyphs glyphs glyph_name_id_map is_math_font have_glyph_path =
    andthen (f_write (pack_H (int (length glyphs))))
      (write_each (\<lambda>g.
           andthen (write_metrics (metrics g))
          (andthen (write_kerns glyph_name_id_map (kerning g))
          (andthen (if is_math_font then write_math glyph_name_id_map (math_record g) else ([], None))
                   (if have_glyph_path then write_path (path_cmds g) else ([], None)))))
         glyphs)"

section \<open>The whole file (parse_otf)\<close>

text \<open>
  \<open>font\<close> holds what the first half of parse_otf has collected from the font through
  fontforge (\<open>xheight\<close> is \<^verbatim>\<open>int(xheight)\<close>); \<open>parse_otf\<close> is the \<^verbatim>\<open>with\<close> block that
  writes the file.
\<close>

record font =
  em :: int
  xheight :: int
  ascent :: int
  descent :: int
  unicode_glyph_map :: "(int \<times> int) list"
  glyph_name_id_map :: "string \<rightharpoonup> int"
  glyphs :: "glyph list"
  ligas :: "(string list \<times> int) list"
  kern_class_tables :: "kerning_class iterable"
  math_consts :: "int list"

definition parse_otf :: "font \<Rightarrow> bool \<Rightarrow> bool \<Rightarrow> written" where
  "parse_otf font is_math_font have_glyph_path =
     andthen (f_write (pack_c CHR ''c''))
    (andthen (f_write (pack_c CHR ''l''))
    (andthen (f_write (pack_c CHR ''m''))
    (andthen (f_write (pack_H 2))
    (andthen (f_write (pack_B (if have_glyph_path then 2 else 1)))
    (andthen (f_write (pack_bool is_math_font))
    (andthen (f_write (pack_H (em font)))
    (andthen (f_write (pack_H (xheight font)))
    (andthen (f_write (pack_H (ascent font)))
    (andthen (f_write (pack_H (descent font)))
    (andthen (write_clm_unicode_glyph_map (unicode_glyph_map font))
    (andthen (write_clm_kerning_class (kern_class_tables font) (glyph_name_id_map font))
    (andthen (write_ligas (ligas font) (glyph_name_id_map font))
    (andthen (if is_math_font then write_math_consts (math_consts font) else ([], None))
             (write_glyphs (glyphs font) (glyph_name_id_map font)
                is_math_font have_glyph_path))))))))))))))"

section \<open>The ligature trie as a table of paths\<close>

text \<open>
  Used to compare tries: \<open>lookup F q\<close> is the ligature value stored at the node that the
  glyph-id path \<open>q\<close> leads to in the forest \<open>F\<close> (\<open>None\<close> when there is no such node),
  \<open>ains\<close> is what one insertion does to that table, \<open>wf_forest\<close> says that siblings
  have distinct glyph ids, and \<open>strip\<close> forgets the glyph names, which are never written.
\<close>

fun lookup :: "node list \<Rightarrow> int list \<Rightarrow> int option" where
  "lookup F [] = None"
| "lookup F (g # q) =
    (case find_first F (\<lambda>x. node_glyph x = g) of
       None \<Rightarrow> None
     | Some n \<Rightarrow> (if q = [] then Some (node_liga n) else lookup (node_children n) q))"

definition ains :: "int list \<Rightarrow> int \<Rightarrow> (int list \<Rightarrow> int option) \<Rightarrow> int list \<Rightarrow> int option" where
  "ains p l A q =
    (if q = p then Some l
     else if q \<noteq> [] \<and> strict_prefix q p then (case A q of None \<Rightarrow> Some (- 1) | Some v \<Rightarrow> Some v)
     else A q)"

fun wf_node :: "node \<Rightarrow> bool" where
  "wf_node (Node g c l cs) = (distinct (map node_glyph cs) \<and> list_all wf_node cs)"

definition wf_forest :: "node list \<Rightarrow> bool" where
  "wf_forest F = (distinct (map node_glyph F) \<and> list_all wf_node F)"

definition rule_glyphs :: "(string \<rightharpoonup> int) \<Rightarrow> string list \<Rightarrow> (int \<times> string) list" where
  "rule_glyphs m chars = map (\<lambda>char. (the (m char), char)) chars"

definition rule_ok :: "(string \<rightharpoonup> int) \<Rightarrow> string list \<times> int \<Rightarrow> bool" where
  "rule_ok m r = (fst r \<noteq> [] \<and> set (fst r) \<subseteq> dom m)"

fun strip :: "node \<Rightarrow> node" where
  "strip (Node g c l cs) = Node g [] l (map strip cs)"

section \<open>Properties\<close>

subsection \<open>The command line\<close>

lemma main_few_arguments: "length argv < 4 \<Longrightarrow> main argv = PrintUsage"
  by (simp add: main_def)

text \<open>
  C9. With three of the four required arguments, \<open>sys.argv\<close> has four entries (the script
  name comes first): the length test \<^verbatim>\<open>len(sys.argv) < 4\<close> lets the call through and
  \<^verbatim>\<open>sys.argv[4]\<close> raises IndexError; no usage text is printed.
\<close>

theorem main_three_arguments_raises:
  "main [''otf2clm'', ''font.otf'', ''true'', ''true''] = Raise IndexError"
  by (simp add: main_def py_index_def)

subsection \<open>Paths: parsing and mirroring\<close>

lemma neg_operand_Pair:
  "neg_operand k (x, as) =
    (if 1 \<le> k \<and> k \<le> length as then Inr (x, as[k - 1 := - (as ! (k - 1))]) else Inl IndexError)"
  by (simp add: neg_operand_def)

lemma mirror_cmd_involution:
  assumes "mirror_cmd t = Inr t'"
  shows "mirror_cmd t' = Inr t"
proof -
  obtain x args where t: "t = (x, args)" by (cases t)
  define a where "a \<longleftrightarrow> x = CHR ''M'' \<or> x = CHR ''m'' \<or> x = CHR ''L'' \<or> x = CHR ''l''
        \<or> x = CHR ''T'' \<or> x = CHR ''t''"
  define b where "b \<longleftrightarrow> x = CHR ''V'' \<or> x = CHR ''v''"
  define c where "c \<longleftrightarrow> x = CHR ''C'' \<or> x = CHR ''c''"
  define d where "d \<longleftrightarrow> x = CHR ''S'' \<or> x = CHR ''s'' \<or> x = CHR ''Q'' \<or> x = CHR ''q''"
  have unf: "mirror_cmd (x, as) =
      (if a then neg_operand 2 (x, as)
       else if b then neg_operand 1 (x, as)
       else if c then bind_err (neg_operand 2 (x, as)) (\<lambda>t. bind_err (neg_operand 4 t) (neg_operand 6))
       else if d then bind_err (neg_operand 2 (x, as)) (neg_operand 4)
       else Inr (x, as))" for as
    unfolding mirror_cmd_def a_def b_def c_def d_def Let_def fst_conv ..
  have again: "mirror_cmd (x, bs) = Inr (x, args)"
    if "mirror_cmd (x, args) = Inr (x, bs)" for bs
  proof -
    consider (a) a | (b) "\<not> a" b | (c) "\<not> a" "\<not> b" c | (d) "\<not> a" "\<not> b" "\<not> c" d
      | (e) "\<not> a" "\<not> b" "\<not> c" "\<not> d"
      by blast
    then show ?thesis
    proof cases
      case a
      with that have len: "1 < length args" and bs: "bs = args[1 := - (args ! 1)]"
        by (auto simp: unf neg_operand_Pair split: if_splits)
      have "bs[1 := - (bs ! 1)] = args"
        using len by (intro nth_equalityI) (auto simp: bs nth_list_update)
      with a len show ?thesis by (simp add: unf neg_operand_Pair bs)
    next
      case b
      with that have len: "0 < length args" and bs: "bs = args[0 := - (args ! 0)]"
        by (auto simp: unf neg_operand_Pair split: if_splits)
      have "bs[0 := - (bs ! 0)] = args"
        using len by (intro nth_equalityI) (auto simp: bs nth_list_update)
      with b len show ?thesis by (simp add: unf neg_operand_Pair bs Suc_le_eq)
    next
      case c
      with that have len: "5 < length args"
        and bs: "bs = args[1 := - (args ! 1), 3 := - (args ! 3), 5 := - (args ! 5)]"
        by (auto simp: unf neg_operand_Pair bind_err_def split: if_splits)
      have "bs[1 := - (bs ! 1), 3 := - (bs ! 3), 5 := - (bs ! 5)] = args"
        using len by (intro nth_equalityI) (auto simp: bs nth_list_update)
      moreover have "mirror_cmd (x, bs) = Inr (x, bs[1 := - (bs ! 1), 3 := - (bs ! 3), 5 := - (bs ! 5)])"
        using c len by (simp add: unf neg_operand_Pair bind_err_def bs)
      ultimately show ?thesis by simp
    next
      case d
      with that have len: "3 < length args"
        and bs: "bs = args[1 := - (args ! 1), 3 := - (args ! 3)]"
        by (auto simp: unf neg_operand_Pair bind_err_def split: if_splits)
      have "bs[1 := - (bs ! 1), 3 := - (bs ! 3)] = args"
        using len by (intro nth_equalityI) (auto simp: bs nth_list_update)
      moreover have "mirror_cmd (x, bs) = Inr (x, bs[1 := - (bs ! 1), 3 := - (bs ! 3)])"
        using d len by (simp add: unf neg_operand_Pair bind_err_def bs)
      ultimately show ?thesis by simp
    next
      case e
      with that show ?thesis by (simp add: unf)
    qed
  qed
  have "fst t' = x"
    using assms unfolding t unf
    by (auto simp: neg_operand_Pair bind_err_def split: if_splits)
  then obtain bs where "t' = (x, bs)" by (cases t') simp
  with again assms t show ?thesis by simp
qed

lemma mirror_involution: "mirror p = Inr p' \<Longrightarrow> mirror p' = Inr p"
  by (induction p arbitrary: p') (auto split: sum.splits dest: mirror_cmd_involution)

lemma read_args_length:
  "read_args v n i acc = Inr (args, j) \<Longrightarrow> length args = length acc + n"
  by (induction n arbitrary: i acc) (auto split: sum.splits)

lemma mirror_cmd_arity:
  assumes "path_cmd_arg_cnt (fst t) \<noteq> 0" and "length (snd t) = nat (path_cmd_arg_cnt (fst t))"
  shows "\<exists>t'. mirror_cmd t = Inr t'"
proof -
  obtain x args where t: "t = (x, args)" by (cases t)
  define a where "a \<longleftrightarrow> x = CHR ''M'' \<or> x = CHR ''m'' \<or> x = CHR ''L'' \<or> x = CHR ''l''
        \<or> x = CHR ''T'' \<or> x = CHR ''t''"
  define h where "h \<longleftrightarrow> x = CHR ''H'' \<or> x = CHR ''h''"
  define b where "b \<longleftrightarrow> x = CHR ''V'' \<or> x = CHR ''v''"
  define c where "c \<longleftrightarrow> x = CHR ''C'' \<or> x = CHR ''c''"
  define d where "d \<longleftrightarrow> x = CHR ''S'' \<or> x = CHR ''s'' \<or> x = CHR ''Q'' \<or> x = CHR ''q''"
  define z where "z \<longleftrightarrow> x = CHR ''Z'' \<or> x = CHR ''z''"
  have cnt: "path_cmd_arg_cnt x =
      (if a then 2 else if h \<or> b then 1 else if c then 6 else if d then 4
       else if z then - 1 else 0)"
    unfolding path_cmd_arg_cnt_def a_def h_def b_def c_def d_def z_def disj_assoc ..
  have unf: "mirror_cmd (x, args) =
      (if a then neg_operand 2 (x, args)
       else if b then neg_operand 1 (x, args)
       else if c then bind_err (neg_operand 2 (x, args)) (\<lambda>t. bind_err (neg_operand 4 t) (neg_operand 6))
       else if d then bind_err (neg_operand 2 (x, args)) (neg_operand 4)
       else Inr (x, args))"
    unfolding mirror_cmd_def a_def b_def c_def d_def Let_def fst_conv ..
  have disj: "h \<Longrightarrow> \<not> c" "h \<Longrightarrow> \<not> d"
    by (auto simp: h_def c_def d_def)
  from assms(2) have "length args = nat (path_cmd_arg_cnt x)" by (simp add: t)
  then show ?thesis
    using disj unfolding t unf cnt
    by (auto simp: neg_operand_def bind_err_def split: if_splits)
qed

lemma mirror_arity:
  "list_all (\<lambda>t. path_cmd_arg_cnt (fst t) \<noteq> 0 \<and> length (snd t) = nat (path_cmd_arg_cnt (fst t))) p \<Longrightarrow>
    \<exists>p'. mirror p = Inr p'"
proof (induction p)
  case Nil
  then show ?case by simp
next
  case (Cons t p)
  then obtain t' p' where "mirror_cmd t = Inr t'" "mirror p = Inr p'"
    using mirror_cmd_arity [of t] by auto
  then show ?case by simp
qed

lemma parse_path_arity:
  "parse_path v i data = Inr p \<Longrightarrow>
   list_all (\<lambda>t. path_cmd_arg_cnt (fst t) \<noteq> 0 \<and> length (snd t) = nat (path_cmd_arg_cnt (fst t))) data \<Longrightarrow>
   list_all (\<lambda>t. path_cmd_arg_cnt (fst t) \<noteq> 0 \<and> length (snd t) = nat (path_cmd_arg_cnt (fst t))) p"
proof (induction v i data rule: parse_path.induct)
  case (1 v i data)
  show ?case
  proof (cases "i < length v")
    case False
    with "1.prems" show ?thesis by (simp add: parse_path.simps)
  next
    case lt: True
    show ?thesis
    proof (cases "path_cmd_arg_cnt (v ! i) = 0")
      case True
      with lt "1.prems" "1.IH"(1) show ?thesis by (simp add: parse_path.simps)
    next
      case nz: False
      from "1.prems"(1) lt nz obtain args i' where
        r: "read_args v (nat (path_cmd_arg_cnt (v ! i))) (i + 1) [] = Inr (args, i')"
        and p: "parse_path v i' (data @ [(v ! i, args)]) = Inr p"
        by (subst (asm) parse_path.simps) (auto split: sum.splits)
      from read_args_length [OF r] have "length args = nat (path_cmd_arg_cnt (v ! i))" by simp
      with "1.IH"(2) [OF lt nz r refl p] "1.prems"(2) nz show ?thesis by simp
    qed
  qed
qed


text \<open>
  C5. For every command list \<open>p\<close> that the parser produces, the mirror step succeeds on
  \<open>p\<close>, and applying it to its own result gives \<open>p\<close> back: mirror(mirror(p)) == p.
\<close>

theorem mirror_twice_parsed:
  "parse_path v 0 [] = Inr p \<Longrightarrow> bind_err (mirror p) mirror = Inr p"
proof -
  assume "parse_path v 0 [] = Inr p"
  from parse_path_arity [OF this] obtain p' where m: "mirror p = Inr p'"
    using mirror_arity by fastforce
  from mirror_involution [OF m] m show ?thesis by (simp add: bind_err_def)
qed

theorem mirror_twice_parsed_witness:
  "parse_path ''M 10 20 L 30 40 Z'' 0 [] = Inr [(CHR ''M'', [10, 20]), (CHR ''L'', [30, 40]), (CHR ''Z'', [])]
   \<and> bind_err (mirror [(CHR ''M'', [10, 20]), (CHR ''L'', [30, 40]), (CHR ''Z'', [])]) mirror
       = Inr [(CHR ''M'', [10, 20]), (CHR ''L'', [30, 40]), (CHR ''Z'', [])]"
proof -
  have h: "parse_path ''M 10 20 L 30 40 Z'' 0 [] = Inr [(CHR ''M'', [10, 20]), (CHR ''L'', [30, 40]), (CHR ''Z'', [])]"
    by code_simp
  from h mirror_twice_parsed [OF h] show ?thesis by simp
qed

text \<open>
  C6. The path description \<^verbatim>\<open>M 10 20 L 30 40 Z\<close> parses to the commands
  [(M,10,20), (L,30,40), (Z,)], the close command with no operands, and the mirror step
  turns them into [(M,10,-20), (L,30,-40), (Z,)], which is what read_glyph_path returns.
\<close>

theorem example_path:
  "parse_path ''M 10 20 L 30 40 Z'' 0 [] = Inr [(CHR ''M'', [10, 20]), (CHR ''L'', [30, 40]), (CHR ''Z'', [])]
   \<and> mirror [(CHR ''M'', [10, 20]), (CHR ''L'', [30, 40]), (CHR ''Z'', [])]
      = Inr [(CHR ''M'', [10, - 20]), (CHR ''L'', [30, - 40]), (CHR ''Z'', [])]
   \<and> read_glyph_path (Some ''M 10 20 L 30 40 Z'')
      = Inr [(CHR ''M'', [10, - 20]), (CHR ''L'', [30, - 40]), (CHR ''Z'', [])]"
  by code_simp

subsection \<open>Writes that succeed\<close>

lemma f_write_Inr: "f_write (Inr bs) = (bs, None)"
  by (simp add: f_write_def)

lemma f_write_Inl: "f_write (Inl e) = ([], Some e)"
  by (simp add: f_write_def)

lemma andthen_None: "andthen (bs, None) w = (bs @ fst w, snd w)"
  by (simp add: andthen_def)

lemma andthen_Some: "andthen (bs, Some e) w = (bs, Some e)"
  by (simp add: andthen_def)

lemma andthen_ok:
  "andthen a b = (out, None) \<longleftrightarrow> (\<exists>x y. a = (x, None) \<and> b = (y, None) \<and> out = x @ y)"
  by (cases a; cases b) (auto simp: andthen_def split: option.splits)

lemma write_all_Nil: "write_all [] = ([], None)"
  by (simp add: write_all_def)

lemma write_all_Cons: "write_all (w # ws) = andthen w (write_all ws)"
  by (simp add: write_all_def)

lemma write_all_ok:
  "write_all ws = (out, None) \<longleftrightarrow> (list_all (\<lambda>w. snd w = None) ws \<and> out = concat (map fst ws))"
proof (induction ws arbitrary: out)
  case Nil
  show ?case by (auto simp: write_all_Nil)
next
  case (Cons w ws)
  show ?case
    by (cases w) (auto simp: write_all_Cons andthen_ok Cons.IH)
qed

lemma write_each_ok:
  "write_each w xs = (out, None) \<longleftrightarrow>
     (list_all (\<lambda>x. snd (w x) = None) xs \<and> out = concat (map (\<lambda>x. fst (w x)) xs))"
  by (simp add: write_each_def write_all_ok list_all_iff comp_def)

subsection \<open>The unicode map, the kerning list and the header\<close>

text \<open>
  C7. Whatever the order of the unicode map handed to write_clm_unicode_glyph_map
  (duplicates allowed), when the write succeeds the bytes are the entry count followed by
  the entries (codepoint as 32 bits, glyph id as 16 bits) of the input list sorted by
  codepoint: the emitted codepoints are in non-decreasing order, and the emitted entries
  are the input entries.
\<close>

theorem unicode_map_sorted:
  assumes "write_clm_unicode_glyph_map m = (out, None)"
  shows "out = u16 (int (length m)) @ concat (map (\<lambda>(codepoint, glyph_id). u32 codepoint @ u16 glyph_id) (sort_key fst m))
         \<and> sorted (map fst (sort_key fst m)) \<and> mset (sort_key fst m) = mset m"
proof -
  from assms obtain x y where
    x: "f_write (pack_H (int (length m))) = (x, None)"
    and y: "write_each (\<lambda>(codepoint, glyph_id). f_write (pack_IH codepoint glyph_id)) (sort_key fst m) = (y, None)"
    and out: "out = x @ y"
    unfolding write_clm_unicode_glyph_map_def andthen_ok by blast
  from x have x': "x = u16 (int (length m))"
    by (auto simp: pack_H_def f_write_def split: if_splits)
  from y have all: "list_all (\<lambda>e. snd (case e of (codepoint, glyph_id) \<Rightarrow> f_write (pack_IH codepoint glyph_id)) = None) (sort_key fst m)"
    and y': "y = concat (map (\<lambda>e. fst (case e of (codepoint, glyph_id) \<Rightarrow> f_write (pack_IH codepoint glyph_id))) (sort_key fst m))"
    unfolding write_each_ok by blast+
  have "map (\<lambda>e. fst (case e of (codepoint, glyph_id) \<Rightarrow> f_write (pack_IH codepoint glyph_id))) (sort_key fst m)
      = map (\<lambda>(codepoint, glyph_id). u32 codepoint @ u16 glyph_id) (sort_key fst m)"
    using all by (intro map_cong refl) (auto simp: list_all_iff pack_IH_def f_write_def split: if_splits)
  with x' y' out show ?thesis by simp
qed

theorem unicode_map_sorted_witness:
  "write_clm_unicode_glyph_map [(66, 2), (65, 1), (65, 3)]
     = ([0, 3, 0, 0, 0, 65, 0, 1, 0, 0, 0, 65, 0, 3, 0, 0, 0, 66, 0, 2], None)
   \<and> sort_key fst [(66, 2), (65, 1), (65, 3 :: int)] = [(65 :: int, 1), (65, 3), (66, 2)]"
proof -
  have h: "write_clm_unicode_glyph_map [(66, 2), (65, 1), (65, 3)]
     = ([0, 3, 0, 0, 0, 65, 0, 1, 0, 0, 0, 65, 0, 3, 0, 0, 0, 66, 0, 2], None)"
    by (simp add: write_clm_unicode_glyph_map_def write_each_def write_all_def andthen_def
        f_write_def pack_H_def pack_IH_def fits_H_def fits_I_def u16_def u32_def)
  from unicode_map_sorted [OF h] h show ?thesis by (simp add: u16_def u32_def)
qed

text \<open>
  C10. The kerning list read_kern builds for a glyph is made of the pairs (other glyph,
  horizontal advance adjustment) of the kerning subtables' entries whose adjustment is not
  0, in their order; no pair with value 0 is in it.
\<close>

theorem read_kern_drops_zero:
  "iter_items (fst (read_kern getPosSub kern_subtable_names))
     = map (\<lambda>kern_info. (other_glyph kern_info, dx_adv1 kern_info))
         (filter (\<lambda>kern_info. dx_adv1 kern_info \<noteq> 0)
            (concat (map getPosSub (iter_items kern_subtable_names))))
   \<and> (\<forall>p \<in> set (iter_items (fst (read_kern getPosSub kern_subtable_names))). snd p \<noteq> 0)"
  by (auto simp: read_kern_def py_map_def py_filter_def fmap_def)

theorem read_kern_drops_zero_witness:
  "iter_items (fst (read_kern
      (\<lambda>n. [\<lparr>subtable_name = n, kind = ''Pair'', other_glyph = ''A'', dx1 = 0, dy1 = 0,
                dx_adv1 = 0, dy_adv1 = 0, dx2 = 0, dy2 = 0, dx_adv2 = 0, dy_adv2 = 0\<rparr>,
             \<lparr>subtable_name = n, kind = ''Pair'', other_glyph = ''B'', dx1 = 0, dy1 = 0,
                dx_adv1 = 5, dy_adv1 = 0, dx2 = 0, dy2 = 0, dx_adv2 = 0, dy_adv2 = 0\<rparr>])
      (Iter [''kern'']))) = [(''B'', 5)]"
  using read_kern_drops_zero [of
      "\<lambda>n. [\<lparr>subtable_name = n, kind = ''Pair'', other_glyph = ''A'', dx1 = 0, dy1 = 0,
                dx_adv1 = 0, dy_adv1 = 0, dx2 = 0, dy2 = 0, dx_adv2 = 0, dy_adv2 = 0\<rparr>,
             \<lparr>subtable_name = n, kind = ''Pair'', other_glyph = ''B'', dx1 = 0, dy1 = 0,
                dx_adv1 = 5, dy_adv1 = 0, dx2 = 0, dy2 = 0, dx_adv2 = 0, dy_adv2 = 0\<rparr>]"
      "Iter [''kern'']"]
  by simp

text \<open>
  C8. The file parse_otf writes begins with the three ASCII bytes c, l, m, the major
  version 2 as an unsigned 16-bit number, the minor version byte (2 with glyph paths, 1
  without) and the one-byte math-font flag. These seven bytes are written whatever
  happens later in the conversion.
\<close>

theorem header_bytes:
  "take 7 (fst (parse_otf font is_math_font have_glyph_path)) =
     map of_char ''clm'' @ u16 2 @ [if have_glyph_path then 2 else 1]
       @ [if is_math_font then 1 else 0]"
  by (simp add: parse_otf_def andthen_None f_write_def pack_c_def pack_H_def pack_B_def
      pack_bool_def u16_def fits_H_def)

lemma header_bytes_values:
  "map of_char ''clm'' @ u16 2 = [99, 108, 109, 0, 2 :: byte]"
  by (simp add: u16_def)

subsection \<open>The kerning writers under Python 3\<close>

text \<open>
  Under Python 3 the kerning writers get map objects, not lists. \<^verbatim>\<open>len(list(kerns))\<close>
  and \<^verbatim>\<open>len(list(kerning_classes))\<close> use the iterator up, so the loop that follows finds
  nothing to write: only the count reaches the file. With a list in place of the map
  object, write_classes fails at \<^verbatim>\<open>len(xs)\<close>, since \<open>xs\<close> is itself a map object.
\<close>

lemma write_kerns_Iter:
  "write_kerns m (Iter xs) = f_write (pack_H (int (length xs)))"
  by (cases "f_write (pack_H (int (length xs)))")
     (auto simp: write_kerns_def py_list_def write_each_def write_all_def andthen_def
        split: option.splits)

lemma write_classes_raises:
  "write_classes m ys = ([], Some TypeError)"
  by (simp add: write_classes_def py_map_def Let_def)

lemma write_clm_kerning_class_Iter:
  "write_clm_kerning_class (Iter ts) m = f_write (pack_H (int (length ts)))"
  by (cases "f_write (pack_H (int (length ts)))")
     (auto simp: write_clm_kerning_class_def py_list_def write_each_def write_all_def andthen_def
        split: option.splits)

lemma write_clm_kerning_class_Seq:
  "write_clm_kerning_class (Seq (t # ts)) m =
     andthen (f_write (pack_H (int (length (t # ts))))) ([], Some TypeError)"
  by (cases t)
     (simp add: write_clm_kerning_class_def py_list_def write_each_def write_all_def
        write_classes_raises andthen_Some)

text \<open>
  C1 (fails on the code). For the font with one kerning class table, left classes
  [None, (A, B)], right classes [None, (C,)] and values (0, 0, 0, 5), as read_kerning_class
  returns it (a map object), write_clm_kerning_class writes the count 1 and no table.
\<close>

theorem kerning_class_count_only:
  "write_clm_kerning_class
     (Iter [([None, Some [''A'', ''B'']], [None, Some [''C'']], [0, 0, 0, 5])])
     [''A'' \<mapsto> 1, ''B'' \<mapsto> 2, ''C'' \<mapsto> 3] = ([0, 1], None)"
  by (simp add: write_clm_kerning_class_Iter f_write_def pack_H_def fits_H_def u16_def)

text \<open>
  C3 (fails on the code). For the same table no value is emitted: with the map object the
  output is the count alone, with a list the call raises TypeError before the value loop.
  The value loop alone, on two columns and the matrix [[0,0],[0,5]], would write the
  single value 5.
\<close>

theorem kerning_class_no_values:
  "write_clm_kerning_class
     (Iter [([None, Some [''A'', ''B'']], [None, Some [''C'']], [0, 0, 0, 5])])
     [''A'' \<mapsto> 1, ''B'' \<mapsto> 2, ''C'' \<mapsto> 3] = ([0, 1], None)
   \<and> write_clm_kerning_class
     (Seq [([None, Some [''A'', ''B'']], [None, Some [''C'']], [0, 0, 0, 5])])
     [''A'' \<mapsto> 1, ''B'' \<mapsto> 2, ''C'' \<mapsto> 3] = ([0, 1], Some TypeError)
   \<and> write_values 2 [0, 0, 0, 5] = ([0, 5], None)"
  by (simp add: write_clm_kerning_class_Iter write_clm_kerning_class_Seq f_write_def pack_H_def
      fits_H_def u16_def andthen_def write_values_def write_each_def write_all_def pack_h_def
      fits_h_def enumerate_eq_zip upt_rec)

text \<open>
  C2 (fails on the code). For a glyph with one kerning pair (B, 5), as read_kern returns
  it (a map object), write_kerns writes the count 1 and no pair.
\<close>

theorem write_kerns_count_only:
  "write_kerns [''A'' \<mapsto> 1, ''B'' \<mapsto> 2]
     (fst (read_kern
        (\<lambda>n. [\<lparr>subtable_name = n, kind = ''Pair'', other_glyph = ''B'', dx1 = 0, dy1 = 0,
                dx_adv1 = 5, dy_adv1 = 0, dx2 = 0, dy2 = 0, dx_adv2 = 0, dy_adv2 = 0\<rparr>])
        (Iter [''kern''])))
   = ([0, 1], None)"
  by (simp add: read_kern_def py_map_def py_filter_def fmap_def write_kerns_Iter f_write_def
      pack_H_def fits_H_def u16_def)

subsection \<open>The ligature trie does not depend on the order of the rules\<close>

lemma find_first_append:
  "find_first (xs @ ys) P = (case find_first xs P of None \<Rightarrow> find_first ys P | Some x \<Rightarrow> Some x)"
  by (induction xs) auto

lemma find_first_None_iff: "find_first xs P = None \<longleftrightarrow> (\<forall>x \<in> set xs. \<not> P x)"
  by (induction xs) auto

lemma find_first_Some: "find_first xs P = Some x \<Longrightarrow> x \<in> set xs \<and> P x"
  by (induction xs) (auto split: if_splits)

lemma find_first_update_same:
  "(\<And>x. P x \<Longrightarrow> P (f x)) \<Longrightarrow>
     find_first (update_first P f xs) P = map_option f (find_first xs P)"
  by (induction xs) auto

lemma find_first_update_other:
  "(\<And>x. P x \<Longrightarrow> \<not> Q x) \<Longrightarrow> (\<And>x. P x \<Longrightarrow> \<not> Q (f x)) \<Longrightarrow>
     find_first (update_first P f xs) Q = find_first xs Q"
  by (induction xs) auto

lemma lookup_Nil: "lookup [] q = None"
  by (cases q) auto

lemma lookup_Cons:
  "lookup F (g # q) =
    (case find_first F (\<lambda>x. node_glyph x = g) of
       None \<Rightarrow> None
     | Some n \<Rightarrow> (if q = [] then Some (node_liga n) else lookup (node_children n) q))"
  by simp

declare lookup.simps(2) [simp del]

lemma lookup_insert_path:
  "gs \<noteq> [] \<Longrightarrow> lookup (insert_path gs l F) q = ains (map fst gs) l (lookup F) q"
proof (induction gs arbitrary: F q)
  case Nil
  then show ?case by simp
next
  case (Cons gc rest)
  obtain g c where gc: "gc = (g, c)" by (cases gc)
  define below where "below = (\<lambda>child.
           if rest = [] then Node (node_glyph child) (node_char child) l (node_children child)
           else Node (node_glyph child) (node_char child) (node_liga child)
                  (insert_path rest l (node_children child)))"
  define N where "N = insert_path (gc # rest) l F"
  define n0 where "n0 = (case find_first F (\<lambda>x. node_glyph x = g) of
                           None \<Rightarrow> Node g c (- 1) [] | Some n \<Rightarrow> n)"
  have N: "N = (case find_first F (\<lambda>x. node_glyph x = g) of
          None \<Rightarrow> F @ [below (Node g c (- 1) [])]
        | Some child \<Rightarrow> update_first (\<lambda>x. node_glyph x = g) below F)"
    unfolding N_def gc below_def insert_path.simps Let_def ..
  have bg: "node_glyph (below n) = node_glyph n" for n
    by (simp add: below_def)
  have n0g: "node_glyph n0 = g"
    by (auto simp: n0_def dest: find_first_Some split: option.splits)
  have same: "find_first N (\<lambda>x. node_glyph x = g) = Some (below n0)"
  proof -
    have "find_first (update_first (\<lambda>x. node_glyph x = g) below F) (\<lambda>x. node_glyph x = g)
        = map_option below (find_first F (\<lambda>x. node_glyph x = g))"
      by (intro find_first_update_same) (simp add: bg)
    then show ?thesis
      by (auto simp: N n0_def find_first_append bg split: option.splits)
  qed
  have other: "find_first N (\<lambda>x. node_glyph x = h) = find_first F (\<lambda>x. node_glyph x = h)"
    if "h \<noteq> g" for h
  proof -
    have "find_first (update_first (\<lambda>x. node_glyph x = g) below F) (\<lambda>x. node_glyph x = h)
        = find_first F (\<lambda>x. node_glyph x = h)"
      using that by (intro find_first_update_other) (auto simp: bg)
    then show ?thesis
      using that by (auto simp: N find_first_append bg split: option.splits)
  qed
  have "lookup N q = ains (g # map fst rest) l (lookup F) q"
  proof (cases q)
    case Nil
    then show ?thesis by (simp add: ains_def)
  next
    case q: (Cons h q')
    show ?thesis
    proof (cases "h = g")
      case False
      then show ?thesis
        using other [OF False] by (simp add: q ains_def lookup_Cons)
    next
      case True
      show ?thesis
      proof (cases "rest = []")
        case r: True
        have "lookup N (g # q') = (if q' = [] then Some l else lookup (node_children n0) q')"
          by (simp add: lookup_Cons same below_def r)
        moreover have "lookup (node_children n0) q' = lookup F (g # q')" if "q' \<noteq> []"
          using that by (auto simp: lookup_Cons n0_def lookup_Nil split: option.splits)
        ultimately show ?thesis
          by (simp add: q True r ains_def)
      next
        case r: False
        have "lookup N (g # q') =
            (if q' = [] then Some (node_liga n0) else lookup (insert_path rest l (node_children n0)) q')"
          by (simp add: lookup_Cons same below_def r)
        also have "\<dots> = (if q' = [] then Some (node_liga n0)
             else ains (map fst rest) l (lookup (node_children n0)) q')"
          using Cons.IH [OF r] by simp
        finally have eq: "lookup N (g # q') = (if q' = [] then Some (node_liga n0)
             else ains (map fst rest) l (lookup (node_children n0)) q')" .
        have l0: "Some (node_liga n0) = (case lookup F [g] of None \<Rightarrow> Some (- 1) | Some v \<Rightarrow> Some v)"
          by (auto simp: lookup_Cons n0_def split: option.splits)
        have ch: "lookup (node_children n0) q'' = lookup F (g # q'')" if "q'' \<noteq> []" for q''
          using that by (auto simp: lookup_Cons n0_def lookup_Nil split: option.splits)
        show ?thesis
        proof (cases "q' = []")
          case True
          have "strict_prefix [] (map fst rest)"
            using r by (cases rest) auto
          with True show ?thesis
            using eq r by (simp add: q \<open>h = g\<close> ains_def l0 [symmetric])
        next
          case False
          then show ?thesis
            using eq ch [OF False] r
            by (simp add: q \<open>h = g\<close> ains_def)
        qed
      qed
    qed
  qed
  then show ?case by (simp add: N_def gc)
qed

lemma wf_node_children: "wf_node n \<longleftrightarrow> wf_forest (node_children n)"
  by (cases n) (simp add: wf_forest_def)

lemma map_glyph_update_first:
  "(\<And>x. node_glyph (f x) = node_glyph x) \<Longrightarrow>
     map node_glyph (update_first P f xs) = map node_glyph xs"
  by (induction xs) auto

lemma list_all_update_first:
  "list_all Q xs \<Longrightarrow> (\<And>x. Q x \<Longrightarrow> Q (f x)) \<Longrightarrow> list_all Q (update_first P f xs)"
  by (induction xs) auto

lemma wf_forest_insert_path: "wf_forest F \<Longrightarrow> wf_forest (insert_path gs l F)"
proof (induction gs arbitrary: F)
  case Nil
  then show ?case by simp
next
  case (Cons gc rest)
  obtain g c where gc: "gc = (g, c)" by (cases gc)
  define below where "below = (\<lambda>child.
           if rest = [] then Node (node_glyph child) (node_char child) l (node_children child)
           else Node (node_glyph child) (node_char child) (node_liga child)
                  (insert_path rest l (node_children child)))"
  have N: "insert_path (gc # rest) l F = (case find_first F (\<lambda>x. node_glyph x = g) of
          None \<Rightarrow> F @ [below (Node g c (- 1) [])]
        | Some child \<Rightarrow> update_first (\<lambda>x. node_glyph x = g) below F)"
    unfolding gc below_def insert_path.simps Let_def ..
  have bg: "node_glyph (below n) = node_glyph n" for n
    by (simp add: below_def)
  have bw: "wf_node (below n)" if "wf_node n" for n
    using that Cons.IH [of "node_children n"]
    by (cases n) (auto simp: below_def wf_forest_def)
  show ?case
  proof (cases "find_first F (\<lambda>x. node_glyph x = g)")
    case None
    then have "g \<notin> set (map node_glyph F)"
      by (auto simp: find_first_None_iff)
    moreover have "wf_node (below (Node g c (- 1) []))"
      by (rule bw) simp
    ultimately show ?thesis
      using Cons.prems by (simp add: N None wf_forest_def bg)
  next
    case (Some child)
    have "map node_glyph (update_first (\<lambda>x. node_glyph x = g) below F) = map node_glyph F"
      by (rule map_glyph_update_first) (rule bg)
    moreover have "list_all wf_node (update_first (\<lambda>x. node_glyph x = g) below F)"
      using Cons.prems by (intro list_all_update_first bw) (auto simp: wf_forest_def)
    ultimately show ?thesis
      using Cons.prems by (simp add: N Some wf_forest_def)
  qed
qed

lemma ains_commute:
  "p1 \<noteq> p2 \<or> l1 = l2 \<Longrightarrow> ains p1 l1 (ains p2 l2 A) = ains p2 l2 (ains p1 l1 A)"
  by (auto simp: ains_def fun_eq_iff split: option.splits)

lemma collect_resolve_ok:
  "set chars \<subseteq> dom m \<Longrightarrow>
   collect (map (\<lambda>char. case lookup_name m char of Inl e \<Rightarrow> Inl e | Inr g \<Rightarrow> Inr (g, char)) chars)
     = Inr (rule_glyphs m chars)"
  by (induction chars) (auto simp: lookup_name_def rule_glyphs_def)

lemma collect_resolve_dom:
  "collect (map (\<lambda>char. case lookup_name m char of Inl e \<Rightarrow> Inl e | Inr g \<Rightarrow> Inr (g, char)) chars) = Inr gs
     \<Longrightarrow> set chars \<subseteq> dom m"
  by (induction chars arbitrary: gs)
     (auto simp: lookup_name_def split: option.splits sum.splits)

lemma collect_resolve:
  "collect (map (\<lambda>char. case lookup_name m char of Inl e \<Rightarrow> Inl e | Inr g \<Rightarrow> Inr (g, char)) chars) = Inr gs
     \<longleftrightarrow> (set chars \<subseteq> dom m \<and> gs = rule_glyphs m chars)"
  using collect_resolve_ok [of chars m] collect_resolve_dom [of m chars gs] by auto

lemma add_node_Inr:
  "add_node m chars l F = Inr F' \<longleftrightarrow>
     (chars \<noteq> [] \<and> set chars \<subseteq> dom m \<and> F' = insert_path (rule_glyphs m chars) l F)"
proof (cases "collect (map (\<lambda>char. case lookup_name m char of Inl e \<Rightarrow> Inl e | Inr g \<Rightarrow> Inr (g, char)) chars)")
  case (Inl e)
  then show ?thesis
    using collect_resolve [of m chars "rule_glyphs m chars"] by (auto simp: add_node_def)
next
  case (Inr gs)
  then show ?thesis
    using collect_resolve [of m chars gs] by (auto simp: add_node_def rule_glyphs_def)
qed

lemma add_nodes_Inr:
  "add_nodes m rules F = Inr F' \<longleftrightarrow>
     (list_all (rule_ok m) rules
      \<and> F' = fold (\<lambda>r. insert_path (rule_glyphs m (fst r)) (snd r)) rules F)"
proof (induction rules arbitrary: F)
  case Nil
  show ?case by auto
next
  case (Cons r rules)
  obtain chars l where r: "r = (chars, l)" by (cases r)
  show ?case
  proof (cases "add_node m chars l F")
    case (Inl e)
    then show ?thesis
      using add_node_Inr [of m chars l F] by (auto simp: r rule_ok_def)
  next
    case (Inr F1)
    then show ?thesis
      using add_node_Inr [of m chars l F F1] by (auto simp: r rule_ok_def Cons.IH)
  qed
qed

lemma wf_forest_fold:
  "wf_forest F \<Longrightarrow> wf_forest (fold (\<lambda>r. insert_path (rule_glyphs m (fst r)) (snd r)) rules F)"
  by (induction rules arbitrary: F) (auto intro: wf_forest_insert_path)

lemma lookup_fold:
  "list_all (rule_ok m) rules \<Longrightarrow>
   lookup (fold (\<lambda>r. insert_path (rule_glyphs m (fst r)) (snd r)) rules F)
     = fold (\<lambda>r. ains (map fst (rule_glyphs m (fst r))) (snd r)) rules (lookup F)"
proof (induction rules arbitrary: F)
  case Nil
  show ?case by simp
next
  case (Cons r rules)
  then have ne: "rule_glyphs m (fst r) \<noteq> []"
    by (simp add: rule_ok_def rule_glyphs_def)
  have "lookup (insert_path (rule_glyphs m (fst r)) (snd r) F)
      = ains (map fst (rule_glyphs m (fst r))) (snd r) (lookup F)"
    using lookup_insert_path [OF ne] by (intro ext) simp
  with Cons show ?case by simp
qed

lemma fold_ains_permute:
  assumes ok: "list_all (rule_ok m) rules"
    and cons: "\<forall>r1 \<in> set rules. \<forall>r2 \<in> set rules. map m (fst r1) = map m (fst r2) \<longrightarrow> snd r1 = snd r2"
    and perm: "mset rules = mset rules'"
  shows "fold (\<lambda>r. ains (map fst (rule_glyphs m (fst r))) (snd r)) rules
       = fold (\<lambda>r. ains (map fst (rule_glyphs m (fst r))) (snd r)) rules'"
proof (rule fold_multiset_equiv [OF _ perm])
  fix r1 r2
  assume r: "r1 \<in> set rules" "r2 \<in> set rules"
  have same: "map m (fst r1) = map m (fst r2)"
    if "map fst (rule_glyphs m (fst r1)) = map fst (rule_glyphs m (fst r2))"
  proof -
    from ok r have d: "set (fst r1) \<subseteq> dom m" "set (fst r2) \<subseteq> dom m"
      by (auto simp: list_all_iff rule_ok_def)
    have "map m cs = map Some (map fst (rule_glyphs m cs))" if "set cs \<subseteq> dom m" for cs
      using that by (induction cs) (auto simp: rule_glyphs_def)
    from this [OF d(1)] this [OF d(2)] that show ?thesis by (simp only:)
  qed
  have "map fst (rule_glyphs m (fst r1)) \<noteq> map fst (rule_glyphs m (fst r2)) \<or> snd r1 = snd r2"
    using cons r same by blast
  then show "ains (map fst (rule_glyphs m (fst r1))) (snd r1) \<circ> ains (map fst (rule_glyphs m (fst r2))) (snd r2)
      = ains (map fst (rule_glyphs m (fst r2))) (snd r2) \<circ> ains (map fst (rule_glyphs m (fst r1))) (snd r1)"
    by (auto simp: fun_eq_iff ains_commute)
qed

lemma write_node_strip: "write_node (strip n) = write_node n"
proof (induction n)
  case (Node g c l cs)
  have "map (write_node \<circ> strip) cs = map write_node cs"
    by (rule map_cong) (simp_all add: Node)
  then show ?case by (simp del: map_eq_conv)
qed

lemma node_glyph_strip: "node_glyph (strip n) = node_glyph n"
  by (cases n) simp

lemma node_glyph_sort_node: "node_glyph (sort_node n) = node_glyph n"
  by (cases n) simp

lemma find_first_distinct:
  "distinct (map node_glyph F) \<Longrightarrow> n \<in> set F \<Longrightarrow>
     find_first F (\<lambda>x. node_glyph x = node_glyph n) = Some n"
  by (induction F) (auto simp: rev_image_eqI)

lemma map_eq_by_key:
  "map f xs = map f ys \<Longrightarrow> (\<And>x y. x \<in> set xs \<Longrightarrow> y \<in> set ys \<Longrightarrow> f x = f y \<Longrightarrow> x = y)
     \<Longrightarrow> xs = ys"
proof (induction xs arbitrary: ys)
  case Nil
  then show ?case by simp
next
  case (Cons x xs)
  then obtain y ys' where ys: "ys = y # ys'" by (cases ys) auto
  with Cons.prems have "x = y" and "map f xs = map f ys'" by auto
  moreover from Cons.IH [of ys'] Cons.prems ys have "xs = ys'" by auto
  ultimately show ?case by (simp add: ys)
qed

lemma glyphs_of_lookup:
  "set (map node_glyph F) = {g. lookup F [g] \<noteq> None}"
  by (auto simp: lookup_Cons find_first_None_iff split: option.splits)

lemma canon_node:
  "wf_node n \<Longrightarrow> wf_node n' \<Longrightarrow> node_glyph n = node_glyph n' \<Longrightarrow> node_liga n = node_liga n'
    \<Longrightarrow> lookup (node_children n) = lookup (node_children n')
    \<Longrightarrow> strip (sort_node n) = strip (sort_node n')"
proof (induction n arbitrary: n')
  case (Node g c l cs)
  obtain g' c' l' cs' where n': "n' = Node g' c' l' cs'" by (cases n')
  with Node.prems have gl: "g' = g" "l' = l" and lk: "lookup cs = lookup cs'"
    and d: "distinct (map node_glyph cs)" "distinct (map node_glyph cs')"
    and w: "list_all wf_node cs" "list_all wf_node cs'"
    by auto
  define A where "A = map strip (sort_key node_glyph (map sort_node cs))"
  define B where "B = map strip (sort_key node_glyph (map sort_node cs'))"
  have keyA: "map node_glyph A = map node_glyph (sort_key node_glyph (map sort_node cs))"
    by (simp add: A_def node_glyph_strip)
  have keyB: "map node_glyph B = map node_glyph (sort_key node_glyph (map sort_node cs'))"
    by (simp add: B_def node_glyph_strip)
  have msA: "mset (map node_glyph A) = mset (map node_glyph cs)"
    by (simp add: keyA multiset.map_comp node_glyph_sort_node comp_def)
  have msB: "mset (map node_glyph B) = mset (map node_glyph cs')"
    by (simp add: keyB multiset.map_comp node_glyph_sort_node comp_def)
  have "set (map node_glyph cs) = set (map node_glyph cs')"
    unfolding glyphs_of_lookup lk ..
  with msA msB have "set (map node_glyph A) = set (map node_glyph B)"
    by (metis mset_eq_setD)
  moreover have "sorted (map node_glyph A)" "sorted (map node_glyph B)"
    by (simp_all add: keyA keyB)
  moreover have "distinct (map node_glyph A)" "distinct (map node_glyph B)"
    using d msA msB by (metis mset_eq_imp_distinct_iff)+
  ultimately have keys: "map node_glyph A = map node_glyph B"
    by (intro sorted_distinct_set_unique)
  have elems: "x = y" if "x \<in> set A" "y \<in> set B" "node_glyph x = node_glyph y" for x y
  proof -
    from that(1) obtain a where a: "a \<in> set cs" "x = strip (sort_node a)"
      by (auto simp: A_def)
    from that(2) obtain b where b: "b \<in> set cs'" "y = strip (sort_node b)"
      by (auto simp: B_def)
    from that(3) a b have ab: "node_glyph a = node_glyph b"
      by (simp add: node_glyph_strip node_glyph_sort_node)
    have fa: "find_first cs (\<lambda>x. node_glyph x = node_glyph a) = Some a"
      using d(1) a(1) by (rule find_first_distinct)
    have fb: "find_first cs' (\<lambda>x. node_glyph x = node_glyph a) = Some b"
      using find_first_distinct [OF d(2) b(1)] ab by simp
    have "lookup cs [node_glyph a] = lookup cs' [node_glyph a]"
      by (simp add: lk)
    then have liga: "node_liga a = node_liga b"
      by (simp add: lookup_Cons fa fb)
    have "lookup (node_children a) q = lookup (node_children b) q" for q
    proof (cases q)
      case Nil
      then show ?thesis by simp
    next
      case (Cons h q')
      have "lookup cs (node_glyph a # q) = lookup cs' (node_glyph a # q)"
        by (simp add: lk)
      then show ?thesis
        by (simp add: lookup_Cons [of _ "node_glyph a"] fa fb Cons)
    qed
    then have ch: "lookup (node_children a) = lookup (node_children b)"
      by (intro ext)
    from w a(1) b(1) have "wf_node a" "wf_node b"
      by (auto simp: list_all_iff)
    from Node.IH [OF a(1) this ab liga ch] a(2) b(2) show ?thesis by simp
  qed
  from map_eq_by_key [OF keys elems] have "A = B" by blast
  then show ?case by (simp add: n' gl A_def B_def)
qed

text \<open>
  C4 (as amended). Let a list of ligature rules be such that any two rules whose component
  names resolve to the same glyph ids have the same result. Then for every permutation of
  the list, building the trie, sorting the children and serializing from the synthetic
  root writes the same bytes, and succeeds for the one exactly when it does for the other.
\<close>

theorem ligature_order_independent:
  assumes "mset rules' = mset rules"
    and "\<forall>r1 \<in> set rules. \<forall>r2 \<in> set rules. map m (fst r1) = map m (fst r2) \<longrightarrow> snd r1 = snd r2"
  shows "fst (write_ligas rules m) = fst (write_ligas rules' m)
       \<and> (snd (write_ligas rules m) = None \<longleftrightarrow> snd (write_ligas rules' m) = None)"
proof (cases "list_all (rule_ok m) rules")
  case True
  from assms(1) have "set rules' = set rules" by (rule mset_eq_setD)
  with True have ok': "list_all (rule_ok m) rules'" by (simp add: list_all_iff)
  define F where "F = fold (\<lambda>r. insert_path (rule_glyphs m (fst r)) (snd r)) rules []"
  define F' where "F' = fold (\<lambda>r. insert_path (rule_glyphs m (fst r)) (snd r)) rules' []"
  have a: "add_nodes m rules [] = Inr F" "add_nodes m rules' [] = Inr F'"
    using True ok' by (simp_all add: add_nodes_Inr F_def F'_def)
  have "wf_forest []" by (simp add: wf_forest_def)
  then have wf: "wf_forest F" "wf_forest F'"
    unfolding F_def F'_def by (rule wf_forest_fold)+
  have "lookup F = lookup F'"
    unfolding F_def F'_def lookup_fold [OF True] lookup_fold [OF ok']
    using fold_ains_permute [OF True assms(2) assms(1) [symmetric]] by simp
  with wf have "strip (sort_node (Node 0 [] (- 1) F)) = strip (sort_node (Node 0 [] (- 1) F'))"
    by (intro canon_node) (simp_all add: wf_forest_def)
  then have "write_node (sort_node (Node 0 [] (- 1) F)) = write_node (sort_node (Node 0 [] (- 1) F'))"
    by (metis write_node_strip)
  then show ?thesis
    by (simp add: write_ligas_def a sort_children_def)
next
  case False
  from assms(1) have "set rules' = set rules" by (rule mset_eq_setD)
  with False have no': "\<not> list_all (rule_ok m) rules'" by (simp add: list_all_iff)
  from False obtain e where "add_nodes m rules [] = Inl e"
    using add_nodes_Inr [of m rules "[]"] by (cases "add_nodes m rules []") auto
  moreover from no' obtain e' where "add_nodes m rules' [] = Inl e'"
    using add_nodes_Inr [of m rules' "[]"] by (cases "add_nodes m rules' []") auto
  ultimately show ?thesis by (simp add: write_ligas_def)
qed

text \<open>
  C4 as stated fails: the rules (a) -> 10 and (a) -> 11 in this order leave 11 at the node
  of a, in the other order 10; the last rule processed wins.
\<close>

theorem ligature_order_counterexample:
  "mset [([''a''], 11), ([''a''], 10 :: int)] = mset [([''a''], 10), ([''a''], 11)]
   \<and> write_ligas [([''a''], 10), ([''a''], 11)] [''a'' \<mapsto> 1]
       = ([0, 0, 255, 255, 255, 255, 0, 1, 0, 1, 0, 0, 0, 11, 0, 0], None)
   \<and> write_ligas [([''a''], 11), ([''a''], 10)] [''a'' \<mapsto> 1]
       = ([0, 0, 255, 255, 255, 255, 0, 1, 0, 1, 0, 0, 0, 10, 0, 0], None)
   \<and> fst (write_ligas [([''a''], 10), ([''a''], 11)] [''a'' \<mapsto> 1])
       \<noteq> fst (write_ligas [([''a''], 11), ([''a''], 10)] [''a'' \<mapsto> 1])"
proof -
  have a: "write_ligas [([''a''], 10), ([''a''], 11)] [''a'' \<mapsto> 1]
       = ([0, 0, 255, 255, 255, 255, 0, 1, 0, 1, 0, 0, 0, 11, 0, 0], None)"
    by (simp add: write_ligas_def add_node_def lookup_name_def sort_children_def write_all_def
        andthen_def f_write_def pack_H_def pack_i_def fits_H_def fits_i_def u16_def u32_def)
  have b: "write_ligas [([''a''], 11), ([''a''], 10)] [''a'' \<mapsto> 1]
       = ([0, 0, 255, 255, 255, 255, 0, 1, 0, 1, 0, 0, 0, 10, 0, 0], None)"
    by (simp add: write_ligas_def add_node_def lookup_name_def sort_children_def write_all_def
        andthen_def f_write_def pack_H_def pack_i_def fits_H_def fits_i_def u16_def u32_def)
  show ?thesis unfolding a b by simp
qed

theorem ligature_order_independent_witness:
  "mset [([''f'', ''f''], 11), ([''f'', ''f'', ''i''], 10 :: int)]
     = mset [([''f'', ''f'', ''i''], 10), ([''f'', ''f''], 11)]
   \<and> fst (write_ligas [([''f'', ''f'', ''i''], 10), ([''f'', ''f''], 11)] [''f'' \<mapsto> 1, ''i'' \<mapsto> 2])
     = fst (write_ligas [([''f'', ''f''], 11), ([''f'', ''f'', ''i''], 10)] [''f'' \<mapsto> 1, ''i'' \<mapsto> 2])
   \<and> write_ligas [([''f'', ''f'', ''i''], 10), ([''f'', ''f''], 11)] [''f'' \<mapsto> 1, ''i'' \<mapsto> 2]
     = ([0, 0, 255, 255, 255, 255, 0, 1, 0, 1, 255, 255, 255, 255, 0, 1, 0, 1, 0,
         0, 0, 11, 0, 1, 0, 2, 0, 0, 0, 10, 0, 0], None)"
proof -
  have p: "mset [([''f'', ''f''], 11), ([''f'', ''f'', ''i''], 10 :: int)]
     = mset [([''f'', ''f'', ''i''], 10), ([''f'', ''f''], 11)]"
    by simp
  have c: "\<forall>r1 \<in> set [([''f'', ''f'', ''i''], 10), ([''f'', ''f''], 11 :: int)].
           \<forall>r2 \<in> set [([''f'', ''f'', ''i''], 10), ([''f'', ''f''], 11)].
             map [''f'' \<mapsto> 1 :: int, ''i'' \<mapsto> 2] (fst r1) = map [''f'' \<mapsto> 1, ''i'' \<mapsto> 2] (fst r2)
               \<longrightarrow> snd r1 = snd r2"
    by simp
  have v: "write_ligas [([''f'', ''f'', ''i''], 10), ([''f'', ''f''], 11)] [''f'' \<mapsto> 1, ''i'' \<mapsto> 2]
     = ([0, 0, 255, 255, 255, 255, 0, 1, 0, 1, 255, 255, 255, 255, 0, 1, 0, 1, 0,
         0, 0, 11, 0, 1, 0, 2, 0, 0, 0, 10, 0, 0], None)"
    by (simp add: write_ligas_def add_node_def lookup_name_def sort_children_def write_all_def
        andthen_def f_write_def pack_H_def pack_i_def fits_H_def fits_i_def u16_def u32_def)
  from ligature_order_independent [OF p c] p v show ?thesis by simp
qed

subsection \<open>The value loop and write_kerns on their own\<close>

text \<open>
  The loop over the values (lines 459-463) is right in itself: run on a matrix of \<open>R\<close>
  rows and \<open>C\<close> columns it writes the cells of rows \<open>1..R-1\<close> and columns \<open>1..C-1\<close>, in
  row-major order, and nothing of row 0 or column 0.
\<close>

lemma write_each_all_ok:
  "list_all (\<lambda>x. snd (w x) = None) xs \<Longrightarrow>
     write_each w xs = (concat (map (\<lambda>x. fst (w x)) xs), None)"
  using write_each_ok [of w xs "concat (map (\<lambda>x. fst (w x)) xs)"] by simp

lemma concat_map_if:
  "concat (map (\<lambda>x. if P x then g x else []) xs) = concat (map g (filter P xs))"
  by (induction xs) auto

lemma keep_tail: "0 < C \<Longrightarrow> filter (\<lambda>j. j \<noteq> 0) [0..<C] = [Suc 0..<C]"
proof -
  assume "0 < C"
  then have "[0..<C] = 0 # [Suc 0..<C]"
    by (rule upt_conv_Cons)
  moreover have "filter (\<lambda>j. j \<noteq> 0) [Suc 0..<C] = [Suc 0..<C]"
    unfolding filter_id_conv by simp
  ultimately show ?thesis by (simp only: filter.simps simp_thms if_False)
qed

lemma row_upt: "[n..<n + C] = map (\<lambda>j. n + j) [0..<C]"
  by (induction C) simp_all

lemma split_rows: "[0..<Suc R * C] = [0..<R * C] @ map (\<lambda>j. R * C + j) [0..<C]"
proof -
  have "[0..<R * C + C] = [0..<R * C] @ [R * C..<R * C + C]"
    by (rule upt_add_eq_append) (rule le0)
  moreover have "Suc R * C = R * C + C"
    by (simp only: mult_Suc add.commute)
  ultimately show ?thesis
    by (simp only: row_upt)
qed

lemma keep_first_row:
  "filter (\<lambda>i. \<not> (i < C \<or> i mod C = 0)) (map (\<lambda>j. 0 * C + j) [0..<C]) = []"
  unfolding filter_empty_conv by simp

lemma keep_later_row:
  assumes "0 < C" and "0 < R"
  shows "filter (\<lambda>i. \<not> (i < C \<or> i mod C = 0)) (map (\<lambda>j. R * C + j) [0..<C])
      = map (\<lambda>c. R * C + c) [Suc 0..<C]"
proof -
  from assms(2) have ge: "C \<le> R * C" by (cases R) simp_all
  have "filter ((\<lambda>i. \<not> (i < C \<or> i mod C = 0)) \<circ> (\<lambda>j. R * C + j)) [0..<C]
      = filter (\<lambda>j. j \<noteq> 0) [0..<C]"
  proof (rule filter_cong [OF refl])
    fix j assume "j \<in> set [0..<C]"
    then have j: "j < C" by simp
    have "(R * C + j) mod C = j" using j by simp
    moreover have "\<not> R * C + j < C" using ge by linarith
    ultimately show "((\<lambda>i. \<not> (i < C \<or> i mod C = 0)) \<circ> (\<lambda>j. R * C + j)) j = (j \<noteq> 0)"
      by simp
  qed
  then show ?thesis
    by (simp only: filter_map keep_tail [OF assms(1)])
qed

lemma kept_indices:
  assumes "0 < C"
  shows "filter (\<lambda>i. \<not> (i < C \<or> i mod C = 0)) [0..<R * C]
       = concat (map (\<lambda>r. map (\<lambda>c. r * C + c) [Suc 0..<C]) [Suc 0..<R])"
proof (induction R)
  case 0
  show ?case by simp
next
  case (Suc R)
  show ?case
  proof (cases R)
    case 0
    have "[Suc 0..<Suc 0] = []" by simp
    with keep_first_row [of C] show ?thesis
      unfolding 0 split_rows by (simp only: mult_0 upt_0 filter.simps append_Nil list.map concat.simps)
  next
    case (Suc R')
    then have pos: "0 < R" by simp
    have "[Suc 0..<Suc R] = [Suc 0..<R] @ [R]"
      using pos by (simp add: Suc)
    with keep_later_row [OF assms pos] Suc.IH show ?thesis
      by (simp only: split_rows filter_append map_append concat_append concat.simps
          list.map append_Nil2)
  qed
qed

lemma enumerate_nth: "enumerate 0 xs = map (\<lambda>i. (i, xs ! i)) [0..<length xs]"
  by (rule nth_equalityI) (simp_all add: nth_enumerate_eq)

lemma write_values_kept:
  assumes "0 < C" and "list_all fits_h val"
  shows "write_values C val =
    (concat (map (\<lambda>i. u16 (val ! i))
       (filter (\<lambda>i. \<not> (i < C \<or> i mod C = 0)) [0..<length val])), None)"
proof -
  let ?w = "\<lambda>(i, v). if i < C then ([], None)
        else if C = 0 then ([], Some ZeroDivisionError)
        else if i mod C = 0 then ([], None)
        else f_write (pack_h v)"
  have fits: "fits_h (val ! i)" if "i < length val" for i
    using assms(2) that by (simp add: list_all_length)
  have w: "?w (i, val ! i) = ((if \<not> (i < C \<or> i mod C = 0) then u16 (val ! i) else []), None)"
    if "i < length val" for i
    using assms(1) fits [OF that] by (simp add: pack_h_def f_write_def)
  have ok: "list_all (\<lambda>x. snd (?w x) = None) (enumerate 0 val)"
    unfolding enumerate_nth list_all_iff
  proof
    fix x assume "x \<in> set (map (\<lambda>i. (i, val ! i)) [0..<length val])"
    then obtain i where "i < length val" "x = (i, val ! i)" by auto
    with w [of i] show "snd (?w x) = None" by simp
  qed
  have "map (\<lambda>x. fst (?w x)) (enumerate 0 val)
      = map (\<lambda>i. if \<not> (i < C \<or> i mod C = 0) then u16 (val ! i) else []) [0..<length val]"
    unfolding enumerate_nth map_map
  proof (rule map_cong [OF refl])
    fix i assume "i \<in> set [0..<length val]"
    then have "i < length val" by simp
    from w [OF this] show "((\<lambda>x. fst (?w x)) \<circ> (\<lambda>i. (i, val ! i))) i
        = (if \<not> (i < C \<or> i mod C = 0) then u16 (val ! i) else [])"
      by simp
  qed
  with write_each_all_ok [OF ok] show ?thesis
    unfolding write_values_def by (simp only: concat_map_if)
qed

lemma write_values_matrix:
  assumes "0 < C" and "length val = R * C" and "list_all fits_h val"
  shows "write_values C val =
    (concat (map (\<lambda>r. concat (map (\<lambda>c. u16 (val ! (r * C + c))) [Suc 0..<C])) [Suc 0..<R]), None)"
proof -
  have "concat (map (\<lambda>i. u16 (val ! i)) (concat (map (\<lambda>r. map (\<lambda>c. r * C + c) [Suc 0..<C]) [Suc 0..<R])))
      = concat (map (\<lambda>r. concat (map (\<lambda>c. u16 (val ! (r * C + c))) [Suc 0..<C])) [Suc 0..<R])"
    by (induction R) (simp_all add: comp_def)
  then show ?thesis
    unfolding write_values_kept [OF assms(1,3)] assms(2) kept_indices [OF assms(1)] by simp
qed

lemma write_values_count:
  assumes "0 < C" and "length val = R * C" and "list_all fits_h val"
  shows "length (fst (write_values C val)) = 2 * ((R - 1) * (C - 1))"
proof -
  have "length (concat (map (\<lambda>r. concat (map (\<lambda>c. u16 (val ! (r * C + c))) [Suc 0..<C])) [Suc 0..<R]))
      = 2 * ((R - 1) * (C - 1))"
    by (simp add: length_concat comp_def u16_def sum_list_triv)
  then show ?thesis
    unfolding write_values_matrix [OF assms] by simp
qed

text \<open>
  Likewise write_kerns, given a list in place of the map object, writes the count and
  then every pair, sorted by the resolved glyph id.
\<close>

lemma collect_lookup_names:
  "set (map fst kerns) \<subseteq> dom m \<Longrightarrow>
   collect (map (\<lambda>x. case lookup_name m (fst x) of Inl e \<Rightarrow> Inl e | Inr g \<Rightarrow> Inr (g, snd x)) kerns)
     = Inr (map (\<lambda>x. (the (m (fst x)), snd x)) kerns)"
  by (induction kerns) (auto simp: lookup_name_def)

lemma write_kerns_list:
  assumes "set (map fst kerns) \<subseteq> dom m" and "length kerns \<le> 65535"
    and "list_all (\<lambda>x. fits_H (the (m (fst x))) \<and> fits_h (snd x)) kerns"
  shows "write_kerns m (Seq kerns) =
    (u16 (int (length kerns))
       @ concat (map (\<lambda>(glyph, val). u16 glyph @ u16 val)
           (sort_key fst (map (\<lambda>x. (the (m (fst x)), snd x)) kerns))), None)"
proof (cases "kerns = []")
  case True
  then show ?thesis
    by (simp add: write_kerns_def f_write_def pack_H_def fits_H_def)
next
  case False
  let ?rs = "sort_key fst (map (\<lambda>x. (the (m (fst x)), snd x)) kerns)"
  let ?w = "\<lambda>(glyph, val). f_write (pack_Hh glyph val)"
  have fit: "fits_H (fst p) \<and> fits_h (snd p)" if "p \<in> set ?rs" for p
    using that assms(3) by (auto simp: list_all_iff)
  have ok: "list_all (\<lambda>p. snd (?w p) = None) ?rs"
    unfolding list_all_iff
  proof
    fix p assume "p \<in> set ?rs"
    from fit [OF this] show "snd (?w p) = None"
      by (cases p) (simp add: pack_Hh_def f_write_def)
  qed
  have "map (\<lambda>p. fst (?w p)) ?rs = map (\<lambda>(glyph, val). u16 glyph @ u16 val) ?rs"
  proof (rule map_cong [OF refl])
    fix p assume "p \<in> set ?rs"
    from fit [OF this] show "fst (?w p) = (case p of (glyph, val) \<Rightarrow> u16 glyph @ u16 val)"
      by (cases p) (simp add: pack_Hh_def f_write_def)
  qed
  with write_each_all_ok [OF ok]
  have pairs: "write_each ?w ?rs = (concat (map (\<lambda>(glyph, val). u16 glyph @ u16 val) ?rs), None)"
    by (simp only:)
  have count: "f_write (pack_H (int (length kerns))) = (u16 (int (length kerns)), None)"
    using assms(2) by (simp add: f_write_def pack_H_def fits_H_def)
  show ?thesis
    using False
    by (simp add: write_kerns_def py_list_def collect_lookup_names [OF assms(1)] pairs count
        andthen_None del: set_map)
qed

end
